theory Spec2Isabelle
  imports Main "HOL-Library.List_Lexorder" "HOL-Library.Char_ord"
begin

section \<open>Data model (types/calendar.ts)\<close>

text \<open>
  A JavaScript \<open>Date\<close> is a millisecond time stamp.  The calendar functions of the
  program (\<open>getDay\<close>, \<open>format\<close>, \<open>addDays\<close>, \<open>isSameDay\<close>) read it in the local time
  zone; the model fixes one zone without daylight-saving shifts and counts the milliseconds
  of local time since 1970-01-01T00:00, so that a calendar day is a block of
  \<open>86400000\<close> consecutive values.  The range limit of \<open>Date\<close> and the value
  \<open>Invalid Date\<close> are not modelled, and a JavaScript \<open>number\<close> is an integer.
\<close>

type_synonym Date = int

datatype RecurrenceType = RNone | Daily | Weekly | Monthly | Custom

text \<open>An optional field \<open>f?: T\<close> is a \<open>T option\<close>; \<open>None\<close> is \<open>undefined\<close>.\<close>

record RecurrencePattern =
  type :: RecurrenceType
  interval :: "int option"
  daysOfWeek :: "int list option"
  endDate :: "Date option"
  occurrences :: "int option"

record CalendarEvent =
  ident :: string
  title :: string
  description :: "string option"
  date :: Date
  time :: string
  endTime :: "string option"
  color :: string
  category :: "string option"
  recurrence :: "RecurrencePattern option"
  originalDate :: "Date option"
  isRecurring :: "bool option"

datatype View = Month | Week | Day

record CalendarState =
  events :: "CalendarEvent list"
  currentDate :: Date
  selectedDate :: "Date option"
  view :: View
  isEventFormOpen :: bool
  editingEvent :: "CalendarEvent option"
  searchQuery :: string
  selectedCategory :: "string option"

text \<open>
  \<open>Partial<CalendarEvent>\<close>: every key may be missing.  \<open>None\<close> is a missing key, and
  \<open>Some v\<close> a key that is present with value \<open>v\<close> (which, for an optional field, may
  itself be \<open>undefined\<close>).
\<close>

record PartialEvent =
  p_ident :: "string option"
  p_title :: "string option"
  p_description :: "string option option"
  p_date :: "Date option"
  p_time :: "string option"
  p_endTime :: "string option option"
  p_color :: "string option"
  p_category :: "string option option"
  p_recurrence :: "RecurrencePattern option option"
  p_originalDate :: "Date option option"
  p_isRecurring :: "bool option option"

section \<open>The date functions the hook imports\<close>

definition MS_PER_DAY :: int where
  "MS_PER_DAY = 86400000"

definition dayNumber :: "Date \<Rightarrow> int" where
  "dayNumber d = d div MS_PER_DAY"

definition isSameDay :: "Date \<Rightarrow> Date \<Rightarrow> bool" where
  "isSameDay a b = (dayNumber a = dayNumber b)"

definition isBefore :: "Date \<Rightarrow> Date \<Rightarrow> bool" where
  "isBefore a b = (a < b)"

definition isAfter :: "Date \<Rightarrow> Date \<Rightarrow> bool" where
  "isAfter a b = (a > b)"

text \<open>\<open>addDays\<close> moves the day of the month and keeps the time of day.\<close>

definition addDays :: "Date \<Rightarrow> int \<Rightarrow> Date" where
  "addDays d amount = d + amount * MS_PER_DAY"

definition addWeeks :: "Date \<Rightarrow> int \<Rightarrow> Date" where
  "addWeeks d amount = addDays d (amount * 7)"

text \<open>\<open>getDay\<close>: 0 is Sunday; 1970-01-01 was a Thursday.\<close>

definition getDay :: "Date \<Rightarrow> int" where
  "getDay d = (dayNumber d + 4) mod 7"

subsection \<open>The proleptic Gregorian calendar\<close>

text \<open>
  Day numbers count from 1970-01-01.  Both conversions work in eras of 400 years
  (146097 days) that begin on 1 March, so that the leap day is the last day of a year.
\<close>

definition daysFromCivil :: "int \<Rightarrow> int \<Rightarrow> int \<Rightarrow> int" where
  "daysFromCivil y m d =
     (let y' = (if m \<le> 2 then y - 1 else y);
          era = y' div 400;
          yoe = y' mod 400;
          doy = (153 * (if m > 2 then m - 3 else m + 9) + 2) div 5 + d - 1;
          doe = yoe * 365 + yoe div 4 - yoe div 100 + doy
      in era * 146097 + doe - 719468)"

definition civilFromDays :: "int \<Rightarrow> int \<times> int \<times> int" where
  "civilFromDays z =
     (let z' = z + 719468;
          era = z' div 146097;
          doe = z' mod 146097;
          c = min 3 (doe div 36524);
          doc = doe - 36524 * c;
          q = doc div 1461;
          doq = doc mod 1461;
          yq = min 3 (doq div 365);
          doy = doq - 365 * yq;
          yoe = 100 * c + 4 * q + yq;
          mp = (5 * doy + 2) div 153;
          d = doy - (153 * mp + 2) div 5 + 1;
          m = (if mp < 10 then mp + 3 else mp - 9)
      in (if m \<le> 2 then yoe + era * 400 + 1 else yoe + era * 400, m, d))"

definition getFullYear :: "Date \<Rightarrow> int" where
  "getFullYear d = fst (civilFromDays (dayNumber d))"

text \<open>\<open>monthOf\<close> is \<open>getMonth() + 1\<close>, and \<open>getDate\<close> the day of the month.\<close>

definition monthOf :: "Date \<Rightarrow> int" where
  "monthOf d = fst (snd (civilFromDays (dayNumber d)))"

definition getDate :: "Date \<Rightarrow> int" where
  "getDate d = snd (snd (civilFromDays (dayNumber d)))"

text \<open>
  \<open>addMonths\<close>: the same day of the month \<open>amount\<close> months later, or the last day of
  that month when it is shorter; the time of day is kept.
\<close>

definition addMonths :: "Date \<Rightarrow> int \<Rightarrow> Date" where
  "addMonths d amount =
     (let dayOfMonth = getDate d;
          idx = getFullYear d * 12 + (monthOf d - 1) + amount;
          firstOfDesired = daysFromCivil (idx div 12) (idx mod 12 + 1) 1;
          firstOfFollowing = daysFromCivil ((idx + 1) div 12) ((idx + 1) mod 12 + 1) 1;
          daysInMonth = firstOfFollowing - firstOfDesired
      in (firstOfDesired + (if dayOfMonth \<ge> daysInMonth then daysInMonth else dayOfMonth) - 1)
           * MS_PER_DAY + d mod MS_PER_DAY)"

subsection \<open>Decimal numerals and \<open>format(date, 'yyyy-MM-dd')\<close>\<close>

definition digitChar :: "int \<Rightarrow> char" where
  "digitChar n = char_of (48 + n)"

function showDigits :: "int \<Rightarrow> string" where
  "showDigits n =
     (if n < 10 then [digitChar n] else showDigits (n div 10) @ [digitChar (n mod 10)])"
  by pat_completeness auto
termination
  by (relation "measure nat") auto

declare showDigits.simps [simp del]

text \<open>\<open>Number.prototype.toString\<close> on an integer.\<close>

definition showInt :: "int \<Rightarrow> string" where
  "showInt i = (if i < 0 then ''-'' @ showDigits (- i) else showDigits i)"

definition padStart :: "string \<Rightarrow> nat \<Rightarrow> char \<Rightarrow> string" where
  "padStart s targetLength c = replicate (targetLength - length s) c @ s"

definition addLeadingZeros :: "int \<Rightarrow> nat \<Rightarrow> string" where
  "addLeadingZeros number targetLength =
     (if number < 0 then ''-'' else []) @ padStart (showDigits \<bar>number\<bar>) targetLength CHR ''0''"

text \<open>
  The token \<open>yyyy\<close> prints the year of the era: a year \<open>y \<le> 0\<close> of the proleptic calendar
  is printed as \<open>1 - y\<close>.
\<close>

definition formatDate :: "Date \<Rightarrow> string" where
  "formatDate d =
     (let signedYear = getFullYear d;
          year = (if signedYear > 0 then signedYear else 1 - signedYear)
      in addLeadingZeros year 4 @ ''-'' @ addLeadingZeros (monthOf d) 2 @ ''-''
           @ addLeadingZeros (getDate d) 2)"

text \<open>Reading a decimal numeral back, and the test for a decimal digit.\<close>

definition digitVal :: "char \<Rightarrow> int" where
  "digitVal c = of_char c - 48"

definition isDigit :: "char \<Rightarrow> bool" where
  "isDigit c = (48 \<le> (of_char c :: int) \<and> (of_char c :: int) \<le> 57)"

definition readDigits :: "string \<Rightarrow> int" where
  "readDigits s = foldl (\<lambda>acc c. acc * 10 + digitVal c) 0 s"

section \<open>JavaScript truthiness of optional strings\<close>

text \<open>\<open>a || b\<close> on strings: \<open>undefined\<close> and the empty string are both falsy.\<close>

definition orElse :: "string option \<Rightarrow> string \<Rightarrow> string" where
  "orElse a b = (case a of None \<Rightarrow> b | Some s \<Rightarrow> if s = [] then b else s)"

definition truthy :: "string option \<Rightarrow> bool" where
  "truthy a = (case a of None \<Rightarrow> False | Some s \<Rightarrow> s \<noteq> [])"

section \<open>Store operations (hooks/useCalendar.ts)\<close>

text \<open>The object spread \<open>{ ...event, ...eventData }\<close>: keys present in the patch win.\<close>

definition merge :: "CalendarEvent \<Rightarrow> PartialEvent \<Rightarrow> CalendarEvent" where
  "merge event eventData =
     \<lparr> ident = (case p_ident eventData of None \<Rightarrow> ident event | Some v \<Rightarrow> v),
       title = (case p_title eventData of None \<Rightarrow> title event | Some v \<Rightarrow> v),
       description = (case p_description eventData of None \<Rightarrow> description event | Some v \<Rightarrow> v),
       date = (case p_date eventData of None \<Rightarrow> date event | Some v \<Rightarrow> v),
       time = (case p_time eventData of None \<Rightarrow> time event | Some v \<Rightarrow> v),
       endTime = (case p_endTime eventData of None \<Rightarrow> endTime event | Some v \<Rightarrow> v),
       color = (case p_color eventData of None \<Rightarrow> color event | Some v \<Rightarrow> v),
       category = (case p_category eventData of None \<Rightarrow> category event | Some v \<Rightarrow> v),
       recurrence = (case p_recurrence eventData of None \<Rightarrow> recurrence event | Some v \<Rightarrow> v),
       originalDate =
         (case p_originalDate eventData of None \<Rightarrow> originalDate event | Some v \<Rightarrow> v),
       isRecurring =
         (case p_isRecurring eventData of None \<Rightarrow> isRecurring event | Some v \<Rightarrow> v) \<rparr>"

definition updateEvent :: "string \<Rightarrow> PartialEvent \<Rightarrow> CalendarState \<Rightarrow> CalendarState" where
  "updateEvent eventId eventData prev =
     prev\<lparr> events := map (\<lambda>event. if ident event = eventId then merge event eventData
                                   else event) (events prev),
           isEventFormOpen := False,
           editingEvent := None \<rparr>"

definition deleteEvent :: "string \<Rightarrow> CalendarState \<Rightarrow> CalendarState" where
  "deleteEvent eventId prev =
     prev\<lparr> events := filter (\<lambda>event. ident event \<noteq> eventId) (events prev),
           isEventFormOpen := False,
           editingEvent := None \<rparr>"

definition moveEvent :: "string \<Rightarrow> Date \<Rightarrow> CalendarState \<Rightarrow> CalendarState" where
  "moveEvent eventId newDate prev =
     prev\<lparr> events := map (\<lambda>event. if ident event = eventId then event\<lparr> date := newDate \<rparr>
                                   else event) (events prev) \<rparr>"

subsection \<open>generateRecurringEvents\<close>

text \<open>
  The inner loop of the weekly branch, entered with \<open>nextDate = addDays(currentDate, 1)\<close>.
  Nothing bounds it: \<open>None\<close> is the loop that never ends.
\<close>

partial_function (option) findNextOnDays :: "int list \<Rightarrow> Date \<Rightarrow> Date option" where
  "findNextOnDays ds nextDate =
     (if getDay nextDate \<notin> set ds then findNextOnDays ds (addDays nextDate 1)
      else Some nextDate)"

declare findNextOnDays.simps [code]

text \<open>
  The \<open>switch\<close> on the rule's type: the next date, or \<open>Return\<close> for the \<open>default\<close>
  branch, which returns the events collected so far.
\<close>

datatype Step = Next Date | Return

definition nextOccurrence ::
  "RecurrenceType \<Rightarrow> int \<Rightarrow> int list option \<Rightarrow> Date \<Rightarrow> Step option" where
  "nextOccurrence ty iv dow cur =
     (case ty of
        Daily \<Rightarrow> Some (Next (addDays cur iv))
      | Weekly \<Rightarrow>
          (case dow of
             None \<Rightarrow> Some (Next (addWeeks cur iv))
           | Some ds \<Rightarrow>
               if length ds > 0 then map_option Next (findNextOnDays ds (addDays cur 1))
               else Some (Next (addWeeks cur iv)))
      | Monthly \<Rightarrow> Some (Next (addMonths cur iv))
      | Custom \<Rightarrow> Some (Next (addDays cur iv))
      | RNone \<Rightarrow> Some Return)"

definition recurringEvent :: "CalendarEvent \<Rightarrow> Date \<Rightarrow> CalendarEvent" where
  "recurringEvent event nextDate =
     event\<lparr> ident := ident event @ ''-'' @ formatDate nextDate,
            date := nextDate,
            originalDate := Some (date event),
            isRecurring := Some True \<rparr>"

text \<open>
  The \<open>while\<close> loop, with its state \<open>currentDate\<close>, \<open>count\<close> and \<open>events\<close>.
\<close>

function recurLoop ::
  "CalendarEvent \<Rightarrow> RecurrenceType \<Rightarrow> int \<Rightarrow> int list option \<Rightarrow> int \<Rightarrow> Date \<Rightarrow>
   Date \<Rightarrow> int \<Rightarrow> CalendarEvent list \<Rightarrow> CalendarEvent list option" where
  "recurLoop event ty iv dow maxOccurrences maxEndDate cur count evs =
     (if count < maxOccurrences \<and> isBefore cur maxEndDate then
        (case nextOccurrence ty iv dow cur of
           None \<Rightarrow> None
         | Some Return \<Rightarrow> Some evs
         | Some (Next nextDate) \<Rightarrow>
             if isAfter nextDate maxEndDate then Some evs
             else recurLoop event ty iv dow maxOccurrences maxEndDate nextDate (count + 1)
                    (evs @ [recurringEvent event nextDate]))
      else Some evs)"
  by pat_completeness auto
termination
  by (relation "measure (\<lambda>(event, ty, iv, dow, maxOccurrences, maxEndDate, cur, count, evs).
        nat (maxOccurrences - count))") auto

declare recurLoop.simps [simp del]

text \<open>
  The bounds of the loop.  The destructuring default \<open>interval = 1\<close> applies to
  \<open>undefined\<close> only; \<open>occurrences || 365\<close> takes 365 for \<open>undefined\<close> and for 0; a
  \<open>Date\<close> object is always truthy, so \<open>endDate || addMonths(new Date(), 12)\<close> takes the
  default for \<open>undefined\<close> only.  \<open>now\<close> is the clock reading of \<open>new Date()\<close>.
\<close>

definition intervalOf :: "RecurrencePattern \<Rightarrow> int" where
  "intervalOf r = (case interval r of None \<Rightarrow> 1 | Some i \<Rightarrow> i)"

definition maxOccurrencesOf :: "RecurrencePattern \<Rightarrow> int" where
  "maxOccurrencesOf r =
     (case occurrences r of None \<Rightarrow> 365 | Some n \<Rightarrow> if n = 0 then 365 else n)"

definition maxEndDateOf :: "Date \<Rightarrow> RecurrencePattern \<Rightarrow> Date" where
  "maxEndDateOf now r = (case endDate r of None \<Rightarrow> addMonths now 12 | Some e \<Rightarrow> e)"

text \<open>The result \<open>None\<close> means that the call does not return.\<close>

definition generateRecurringEvents :: "Date \<Rightarrow> CalendarEvent \<Rightarrow> CalendarEvent list option" where
  "generateRecurringEvents now event =
     (case recurrence event of
        None \<Rightarrow> Some [event]
      | Some r \<Rightarrow>
          if type r = RNone then Some [event]
          else recurLoop event (type r) (intervalOf r) (daysOfWeek r) (maxOccurrencesOf r)
                 (maxEndDateOf now r) (date event) 1 [event])"

text \<open>
  \<open>addEvent\<close> reads the clock for the new identity (\<open>Date.now().toString()\<close>) and, inside
  \<open>generateRecurringEvents\<close>, for the default end date; \<open>now\<close> stands for both readings.
  The identity of \<open>eventData\<close> is not read.
\<close>

definition addEvent :: "Date \<Rightarrow> CalendarEvent \<Rightarrow> CalendarState \<Rightarrow> CalendarState option" where
  "addEvent now eventData prev =
     (let newEvent = eventData\<lparr> ident := showInt now \<rparr>
      in case generateRecurringEvents now newEvent of
           None \<Rightarrow> None
         | Some eventsToAdd \<Rightarrow>
             Some (prev\<lparr> events := events prev @ eventsToAdd,
                         isEventFormOpen := False,
                         editingEvent := None \<rparr>))"

text \<open>
  The filter callback of \<open>checkEventConflict\<close>, with its two early returns and the
  final comparison of the time strings (\<open><=\<close> on JavaScript strings is the lexicographic
  order of their code units).
\<close>

definition conflictsWith :: "CalendarEvent \<Rightarrow> string option \<Rightarrow> CalendarEvent \<Rightarrow> bool" where
  "conflictsWith newEvent excludeId event =
     (if truthy excludeId \<and> Some (ident event) = excludeId then False
      else if \<not> isSameDay (date event) (date newEvent) then False
      else
        let eventStart = time event;
            eventEnd = orElse (endTime event) (time event);
            newStart = time newEvent;
            newEnd = orElse (endTime newEvent) (time newEvent)
        in eventStart \<le> newEnd \<and> eventEnd \<ge> newStart)"

definition checkEventConflict ::
  "CalendarState \<Rightarrow> CalendarEvent \<Rightarrow> string option \<Rightarrow> CalendarEvent list" where
  "checkEventConflict state newEvent excludeId =
     filter (conflictsWith newEvent excludeId) (events state)"

section \<open>The persistence boundary\<close>

text \<open>
  The save effect writes \<open>JSON.stringify(state.events)\<close>; the load effect reads the text
  back with \<open>JSON.parse\<close> and rebuilds the dates.  What \<open>JSON.parse\<close> returns for a
  text that \<open>JSON.stringify\<close> wrote is the same value with every \<open>Date\<close> replaced by
  the string of its \<open>toISOString()\<close> and every key whose value is \<open>undefined\<close> left
  out; a key left out reads as \<open>undefined\<close> again.  The records below are the events
  in that form: the three date fields hold strings.
\<close>

record StoredRecurrence =
  sr_type :: RecurrenceType
  sr_interval :: "int option"
  sr_daysOfWeek :: "int list option"
  sr_endDate :: "string option"
  sr_occurrences :: "int option"

record StoredEvent =
  s_ident :: string
  s_title :: string
  s_description :: "string option"
  s_date :: string
  s_time :: string
  s_endTime :: "string option"
  s_color :: string
  s_category :: "string option"
  s_recurrence :: "StoredRecurrence option"
  s_originalDate :: "string option"
  s_isRecurring :: "bool option"

text \<open>
  \<open>Date.prototype.toISOString\<close>: \<open>YYYY-MM-DDTHH:mm:ss.sssZ\<close>, the year with a sign and
  six digits when it is not between 0 and 9999.  The string is in universal time, which
  the model takes as its time zone.
\<close>

definition zeroPad :: "int \<Rightarrow> nat \<Rightarrow> string" where
  "zeroPad n len = padStart (showDigits n) len CHR ''0''"

definition toISOString :: "Date \<Rightarrow> string" where
  "toISOString d =
     (let y = getFullYear d; ms = d mod MS_PER_DAY
      in (if 0 \<le> y \<and> y \<le> 9999 then zeroPad y 4
          else (if y < 0 then ''-'' else ''+'') @ zeroPad \<bar>y\<bar> 6)
         @ ''-'' @ zeroPad (monthOf d) 2 @ ''-'' @ zeroPad (getDate d) 2
         @ ''T'' @ zeroPad (ms div 3600000) 2 @ '':'' @ zeroPad (ms div 60000 mod 60) 2
         @ '':'' @ zeroPad (ms div 1000 mod 60) 2 @ ''.'' @ zeroPad (ms mod 1000) 3 @ ''Z'')"

text \<open>
  \<open>new Date(string)\<close> on a string of that format.  \<open>None\<close> stands for a string that is
  not of the format, for which JavaScript builds an invalid date.
\<close>

definition yearShape :: "string \<Rightarrow> bool" where
  "yearShape s =
     (case s of
        [] \<Rightarrow> False
      | c # cs \<Rightarrow>
          if c = CHR ''+'' \<or> c = CHR ''-'' then 6 \<le> length cs \<and> list_all isDigit cs
          else length s = 4 \<and> list_all isDigit s)"

definition readYear :: "string \<Rightarrow> int" where
  "readYear s =
     (case s of
        [] \<Rightarrow> 0
      | c # cs \<Rightarrow>
          if c = CHR ''-'' then - readDigits cs
          else if c = CHR ''+'' then readDigits cs
          else readDigits s)"

definition timeShape :: "string \<Rightarrow> bool" where
  "timeShape r =
     (length r = 20 \<and> r ! 0 = CHR ''-'' \<and> r ! 3 = CHR ''-'' \<and> r ! 6 = CHR ''T''
      \<and> r ! 9 = CHR '':'' \<and> r ! 12 = CHR '':'' \<and> r ! 15 = CHR ''.'' \<and> r ! 19 = CHR ''Z''
      \<and> list_all isDigit (take 2 (drop 1 r)) \<and> list_all isDigit (take 2 (drop 4 r))
      \<and> list_all isDigit (take 2 (drop 7 r)) \<and> list_all isDigit (take 2 (drop 10 r))
      \<and> list_all isDigit (take 2 (drop 13 r)) \<and> list_all isDigit (take 3 (drop 16 r)))"

definition dateOfString :: "string \<Rightarrow> Date option" where
  "dateOfString s =
     (let n = length s;
          yearPart = take (n - 20) s;
          r = drop (n - 20) s;
          month = readDigits (take 2 (drop 1 r));
          day = readDigits (take 2 (drop 4 r));
          hours = readDigits (take 2 (drop 7 r));
          minutes = readDigits (take 2 (drop 10 r));
          seconds = readDigits (take 2 (drop 13 r));
          millis = readDigits (take 3 (drop 16 r))
      in if yearShape yearPart \<and> timeShape r \<and> 1 \<le> month \<and> month \<le> 12 \<and> 1 \<le> day
            \<and> day \<le> 31 \<and> hours \<le> 23 \<and> minutes \<le> 59 \<and> seconds \<le> 59
         then Some (daysFromCivil (readYear yearPart) month day * MS_PER_DAY
                    + hours * 3600000 + minutes * 60000 + seconds * 1000 + millis)
         else None)"

text \<open>The events as the load effect finds them after \<open>JSON.parse\<close>.\<close>

definition storeRecurrence :: "RecurrencePattern \<Rightarrow> StoredRecurrence" where
  "storeRecurrence r =
     \<lparr> sr_type = type r, sr_interval = interval r, sr_daysOfWeek = daysOfWeek r,
       sr_endDate = map_option toISOString (endDate r), sr_occurrences = occurrences r \<rparr>"

definition storeEvent :: "CalendarEvent \<Rightarrow> StoredEvent" where
  "storeEvent e =
     \<lparr> s_ident = ident e, s_title = title e, s_description = description e,
       s_date = toISOString (date e), s_time = time e, s_endTime = endTime e,
       s_color = color e, s_category = category e,
       s_recurrence = map_option storeRecurrence (recurrence e),
       s_originalDate = map_option toISOString (originalDate e),
       s_isRecurring = isRecurring e \<rparr>"

definition saveEvents :: "CalendarEvent list \<Rightarrow> StoredEvent list" where
  "saveEvents evs = map storeEvent evs"

text \<open>
  The load effect.  \<open>v ? new Date(v) : undefined\<close> rebuilds an optional date: a missing
  value and the empty string are falsy.  An object is always truthy, so the rule is
  rebuilt whenever it is present.  The result is \<open>None\<close> when some date string is not of
  the format.
\<close>

definition reviveOptional :: "string option \<Rightarrow> Date option option" where
  "reviveOptional v =
     (case v of
        None \<Rightarrow> Some None
      | Some str \<Rightarrow> if str = [] then Some None else map_option Some (dateOfString str))"

definition loadRecurrence :: "StoredRecurrence \<Rightarrow> RecurrencePattern option" where
  "loadRecurrence r =
     (case reviveOptional (sr_endDate r) of
        None \<Rightarrow> None
      | Some e \<Rightarrow>
          Some \<lparr> type = sr_type r, interval = sr_interval r, daysOfWeek = sr_daysOfWeek r,
                 endDate = e, occurrences = sr_occurrences r \<rparr>)"

definition loadEvent :: "StoredEvent \<Rightarrow> CalendarEvent option" where
  "loadEvent event =
     (case dateOfString (s_date event) of
        None \<Rightarrow> None
      | Some d \<Rightarrow>
          (case reviveOptional (s_originalDate event) of
             None \<Rightarrow> None
           | Some od \<Rightarrow>
               (case (case s_recurrence event of
                        None \<Rightarrow> Some None
                      | Some r \<Rightarrow> map_option Some (loadRecurrence r)) of
                  None \<Rightarrow> None
                | Some rc \<Rightarrow>
                    Some \<lparr> ident = s_ident event, title = s_title event,
                           description = s_description event, date = d, time = s_time event,
                           endTime = s_endTime event, color = s_color event,
                           category = s_category event, recurrence = rc, originalDate = od,
                           isRecurring = s_isRecurring event \<rparr>)))"

definition loadEvents :: "StoredEvent list \<Rightarrow> CalendarEvent list option" where
  "loadEvents saved = those (map loadEvent saved)"

section \<open>Sequences of store operations\<close>

text \<open>
  The four operations that change the collection.  \<open>Add\<close> carries the clock reading of
  its call.  A sequence stops with \<open>None\<close> when an \<open>Add\<close> does not return.
\<close>

datatype Op = Add Date CalendarEvent | Update string PartialEvent | Delete string | Move string Date

fun applyOp :: "Op \<Rightarrow> CalendarState \<Rightarrow> CalendarState option" where
  "applyOp (Add now eventData) s = addEvent now eventData s"
| "applyOp (Update eventId eventData) s = Some (updateEvent eventId eventData s)"
| "applyOp (Delete eventId) s = Some (deleteEvent eventId s)"
| "applyOp (Move eventId newDate) s = Some (moveEvent eventId newDate s)"

fun applyOps :: "Op list \<Rightarrow> CalendarState \<Rightarrow> CalendarState option" where
  "applyOps [] s = Some s"
| "applyOps (x # xs) s = (case applyOp x s of None \<Rightarrow> None | Some s' \<Rightarrow> applyOps xs s')"

section \<open>The specification's reading of a conflict\<close>

text \<open>
  The overlap test in the words of the specification: the end of an interval is its end
  time, or its start time when the end time is missing.
\<close>

definition specEnd :: "CalendarEvent \<Rightarrow> string" where
  "specEnd e = (case endTime e of None \<Rightarrow> time e | Some t \<Rightarrow> t)"

definition specConflict :: "CalendarEvent \<Rightarrow> string option \<Rightarrow> CalendarEvent \<Rightarrow> bool" where
  "specConflict candidate excludeIdentity existing =
     (Some (ident existing) \<noteq> excludeIdentity \<and>
      isSameDay (date existing) (date candidate) \<and>
      time existing \<le> specEnd candidate \<and> specEnd existing \<ge> time candidate)"

section \<open>Notions used to state the properties of the expansion\<close>


text \<open>
  The weekly search for the next listed weekday can succeed: the rule is not weekly, or it
  lists no weekdays, or it lists at least one index between 0 and 6.
\<close>

definition weekdayFound :: "RecurrencePattern \<Rightarrow> bool" where
  "weekdayFound r =
     (type r \<noteq> Weekly \<or>
      (case daysOfWeek r of None \<Rightarrow> True
       | Some ds \<Rightarrow> ds = [] \<or> (\<exists>x \<in> set ds. 0 \<le> x \<and> x < 7)))"

text \<open>
  A list of dates is a run of the loop from \<open>cur\<close>: each date is the next occurrence after
  the one before it, the loop guard on the date held before the step, and the date is not
  after the end date.
\<close>

fun chain ::
  "RecurrenceType \<Rightarrow> int \<Rightarrow> int list option \<Rightarrow> Date \<Rightarrow> Date \<Rightarrow> Date list \<Rightarrow> bool" where
  "chain ty iv dow maxEndDate cur [] = True"
| "chain ty iv dow maxEndDate cur (d # ds) =
     (nextOccurrence ty iv dow cur = Some (Next d) \<and> cur < maxEndDate \<and> d \<le> maxEndDate
      \<and> chain ty iv dow maxEndDate d ds)"

text \<open>
  \<open>nxt\<close> is the nearest calendar day strictly after \<open>cur\<close> whose weekday is in \<open>ds\<close>, at
  the same time of day.
\<close>

definition nearestAfter :: "int list \<Rightarrow> Date \<Rightarrow> Date \<Rightarrow> bool" where
  "nearestAfter ds cur nxt =
     (let k = (nxt - cur) div MS_PER_DAY
      in 1 \<le> k \<and> nxt = addDays cur k \<and> getDay nxt \<in> set ds
         \<and> (\<forall>j \<in> {1..<k}. getDay (addDays cur j) \<notin> set ds))"

text \<open>
  Every step of the rule moves to a later calendar day: the rule is weekly with listed
  weekdays, or its interval is positive.  \<open>forwardRule\<close> asks this of the rule of an
  event, if it has one that is not of type none, and asks that the event is not dated
  before 1 January of the year 1: \<open>format\<close> prints the years before it like the years
  after it.
\<close>

definition stepsForward :: "RecurrencePattern \<Rightarrow> bool" where
  "stepsForward r =
     ((type r = Weekly \<and> (case daysOfWeek r of None \<Rightarrow> False | Some ds \<Rightarrow> ds \<noteq> []))
      \<or> 1 \<le> intervalOf r)"

definition forwardRule :: "CalendarEvent \<Rightarrow> bool" where
  "forwardRule e =
     (case recurrence e of
        None \<Rightarrow> True
      | Some r \<Rightarrow> type r = RNone \<or> (stepsForward r \<and> - 719162 \<le> dayNumber (date e)))"

text \<open>
  The clock readings of the \<open>Add\<close> operations of a sequence, and the operations under
  which identities stay unique: an \<open>Add\<close> at a clock reading that is not negative, for an
  event with a forward rule, and an \<open>Update\<close> whose patch has no \<open>id\<close> key.
\<close>

fun clockReadings :: "Op list \<Rightarrow> Date list" where
  "clockReadings [] = []"
| "clockReadings (Add now eventData # xs) = now # clockReadings xs"
| "clockReadings (x # xs) = clockReadings xs"

fun admissible :: "Op \<Rightarrow> bool" where
  "admissible (Add now eventData) = (0 \<le> now \<and> forwardRule eventData)"
| "admissible (Update eventId eventData) = (p_ident eventData = None)"
| "admissible x = True"

text \<open>
  An identity has the stem \<open>t\<close> when it is the decimal numeral of \<open>t\<close>, alone or followed
  by a hyphen and more: the identities that an \<open>Add\<close> at clock reading \<open>t\<close> creates.
\<close>

definition stem :: "Date \<Rightarrow> string \<Rightarrow> bool" where
  "stem t i = (0 \<le> t \<and> (i = showInt t \<or> (\<exists>s. i = showInt t @ ''-'' @ s)))"

definition stemmed :: "Date set \<Rightarrow> CalendarEvent list \<Rightarrow> bool" where
  "stemmed T evs = (distinct (map ident evs) \<and> (\<forall>x \<in> set evs. \<exists>t \<in> T. stem t (ident x)))"

text \<open>
  The day number of the first day of a month, the months counted from March of the
  year 0: the form of \<open>daysFromCivil\<close> in which consecutive months are consecutive
  arguments.
\<close>

definition marchDays :: "int \<Rightarrow> int" where
  "marchDays j =
     (let y = j div 12
      in (y div 400) * 146097 + (y mod 400) * 365 + (y mod 400) div 4 - (y mod 400) div 100
           + (153 * (j mod 12) + 2) div 5 - 719468)"

section \<open>Sample data\<close>

definition sampleEvent ::
  "string \<Rightarrow> Date \<Rightarrow> string \<Rightarrow> string option \<Rightarrow> RecurrencePattern option \<Rightarrow> CalendarEvent" where
  "sampleEvent i d t e r =
     \<lparr> ident = i, title = ''Standup'', description = None, date = d, time = t, endTime = e,
       color = ''#3B82F6'', category = None, recurrence = r, originalDate = None,
       isRecurring = None \<rparr>"

definition sampleState :: "CalendarEvent list \<Rightarrow> CalendarState" where
  "sampleState es =
     \<lparr> events = es, currentDate = 0, selectedDate = None, view = Month,
       isEventFormOpen = True, editingEvent = None, searchQuery = [],
       selectedCategory = None \<rparr>"

definition weeklyRule :: "int list \<Rightarrow> Date option \<Rightarrow> int option \<Rightarrow> RecurrencePattern" where
  "weeklyRule ds e n =
     \<lparr> type = Weekly, interval = None, daysOfWeek = Some ds, endDate = e, occurrences = n \<rparr>"

definition dailyRule :: "int option \<Rightarrow> Date option \<Rightarrow> int option \<Rightarrow> RecurrencePattern" where
  "dailyRule i e n =
     \<lparr> type = Daily, interval = i, daysOfWeek = None, endDate = e, occurrences = n \<rparr>"

definition sampleOps :: "Op list" where
  "sampleOps =
     [Add 1700000000000
        (sampleEvent [] 1704240000000 ''09:00'' (Some ''10:00'')
           (Some (dailyRule (Some 2) None (Some 3)))),
      Add 1700000000001 (sampleEvent [] 1704240000000 ''11:00'' None None),
      Move ''1700000000001'' 1704326400000,
      Delete ''1700000000000-2024-01-05'']"

section \<open>Conflict detection\<close>

lemma orElse_specEnd: "endTime e \<noteq> Some [] \<Longrightarrow> orElse (endTime e) (time e) = specEnd e"
  by (simp add: orElse_def specEnd_def split: option.splits)

text \<open>
  C1.  \<open>checkEventConflict\<close> returns, in the order of the collection, exactly the stored
  instances that are not the excluded identity, lie on the candidate's calendar day and
  satisfy \<open>existing.start \<le> candidate.end\<close> and \<open>existing.end \<ge> candidate.start\<close> in the
  lexicographic order of the time strings, a missing end time standing for the start time.
  Time strings of the form HH:MM are not empty and an identity to exclude is not empty;
  JavaScript reads an empty string as a missing value.  The two boundary cases of the
  claim are the sample below: 09:00--10:00 against 10:00--11:00 is a conflict,
  09:00--09:59 against 10:00--11:00 is none.
\<close>

theorem checkEventConflict_spec:
  assumes "excludeId \<noteq> Some []"
    and "endTime newEvent \<noteq> Some []"
    and "\<forall>e \<in> set (events state). endTime e \<noteq> Some []"
  shows "checkEventConflict state newEvent excludeId =
         filter (specConflict newEvent excludeId) (events state)"
proof -
  have "conflictsWith newEvent excludeId e = specConflict newEvent excludeId e"
    if "e \<in> set (events state)" for e
  proof -
    from that assms(3) have "endTime e \<noteq> Some []" by blast
    with assms(1,2) show ?thesis
      by (cases excludeId)
         (auto simp: conflictsWith_def specConflict_def truthy_def orElse_specEnd Let_def)
  qed
  then show ?thesis
    unfolding checkEventConflict_def by (intro filter_cong) auto
qed

theorem checkEventConflict_spec_witness:
  "checkEventConflict (sampleState [sampleEvent ''1'' 0 ''09:00'' (Some ''10:00'') None])
      (sampleEvent ''temp'' 3600000 ''10:00'' (Some ''11:00'') None) None
     = [sampleEvent ''1'' 0 ''09:00'' (Some ''10:00'') None]
   \<and> checkEventConflict (sampleState [sampleEvent ''1'' 0 ''09:00'' (Some ''09:59'') None])
      (sampleEvent ''temp'' 3600000 ''10:00'' (Some ''11:00'') None) None = []"
  using checkEventConflict_spec [of None
          "sampleEvent ''temp'' 3600000 ''10:00'' (Some ''11:00'') None"
          "sampleState [sampleEvent ''1'' 0 ''09:00'' (Some ''10:00'') None]"]
        checkEventConflict_spec [of None
          "sampleEvent ''temp'' 3600000 ''10:00'' (Some ''11:00'') None"
          "sampleState [sampleEvent ''1'' 0 ''09:00'' (Some ''09:59'') None]"]
  by (simp add: sampleState_def sampleEvent_def specConflict_def specEnd_def isSameDay_def
        dayNumber_def MS_PER_DAY_def)

section \<open>Operations on an identity that is not in the collection\<close>

text \<open>
  C8.  When no stored instance has the given identity, \<open>updateEvent\<close>, \<open>deleteEvent\<close> and
  \<open>moveEvent\<close> leave the event collection as it was.  The three operations are total
  functions of the state: none of them has a failing branch.
\<close>

theorem miss_is_noop:
  assumes "\<forall>e \<in> set (events state). ident e \<noteq> eventId"
  shows "events (updateEvent eventId eventData state) = events state
       \<and> events (deleteEvent eventId state) = events state
       \<and> events (moveEvent eventId newDate state) = events state"
  using assms by (simp add: updateEvent_def deleteEvent_def moveEvent_def map_idI)

theorem miss_is_noop_witness:
  "events (updateEvent ''nonexistent'' \<lparr> p_ident = None, p_title = Some ''Gym'',
        p_description = None, p_date = None, p_time = None, p_endTime = None, p_color = None,
        p_category = None, p_recurrence = None, p_originalDate = None, p_isRecurring = None \<rparr>
      (sampleState [sampleEvent ''1'' 0 ''09:00'' None None]))
     = [sampleEvent ''1'' 0 ''09:00'' None None]
   \<and> events (deleteEvent ''nonexistent'' (sampleState [sampleEvent ''1'' 0 ''09:00'' None None]))
     = [sampleEvent ''1'' 0 ''09:00'' None None]
   \<and> events (moveEvent ''nonexistent'' 86400000
        (sampleState [sampleEvent ''1'' 0 ''09:00'' None None]))
     = [sampleEvent ''1'' 0 ''09:00'' None None]"
  using miss_is_noop [of "sampleState [sampleEvent ''1'' 0 ''09:00'' None None]" "''nonexistent''"
      "\<lparr> p_ident = None, p_title = Some ''Gym'',
        p_description = None, p_date = None, p_time = None, p_endTime = None, p_color = None,
        p_category = None, p_recurrence = None, p_originalDate = None, p_isRecurring = None \<rparr>"
      86400000]
  by (simp add: sampleState_def sampleEvent_def)

text \<open>
  C10.  Every \<open>updateEvent\<close> and every \<open>deleteEvent\<close>, whether or not the identity is
  found, ends with the event form closed and no event being edited.
\<close>

theorem update_delete_close_form:
  "isEventFormOpen (updateEvent eventId eventData state) = False
   \<and> editingEvent (updateEvent eventId eventData state) = None
   \<and> isEventFormOpen (deleteEvent eventId state) = False
   \<and> editingEvent (deleteEvent eventId state) = None"
  by (simp add: updateEvent_def deleteEvent_def)

section \<open>The search for the next listed weekday\<close>

lemma getDay_range: "0 \<le> getDay d \<and> getDay d < 7"
  by (simp add: getDay_def)

lemma getDay_addDays: "getDay (addDays d k) = (getDay d + k) mod 7"
  by (simp add: getDay_def addDays_def dayNumber_def MS_PER_DAY_def mod_simps add.commute add.left_commute)

lemma addDays_addDays: "addDays (addDays d j) k = addDays d (j + k)"
  by (simp add: addDays_def algebra_simps)

lemma addDays_0: "addDays d 0 = d"
  by (simp add: addDays_def)


lemma addDays_less: "addDays d j < addDays d k \<longleftrightarrow> j < k"
  by (simp add: addDays_def MS_PER_DAY_def)

lemma addDays_less_self: "d < addDays d k \<longleftrightarrow> 0 < k"
  by (simp add: addDays_def MS_PER_DAY_def)

lemma addDays_diff: "(addDays cur k - cur) div MS_PER_DAY = k"
  by (simp add: addDays_def MS_PER_DAY_def)

lemma date_recurringEvent: "date (recurringEvent e d) = d"
  by (simp add: recurringEvent_def)

text \<open>Whatever the search returns is a day of the list, so a list without a weekday index
  between 0 and 6 keeps it running for ever.\<close>

lemma findNextOnDays_member:
  "findNextOnDays ds d = Some r \<Longrightarrow> getDay r \<in> set ds"
  by (rule findNextOnDays.raw_induct [where P = "\<lambda>ds d r. getDay r \<in> set ds"])
     (auto split: if_splits)


text \<open>The search returns the first day, counted from its start, whose weekday is listed.\<close>

lemma findNextOnDays_steps:
  assumes "getDay (addDays d (int k)) \<in> set ds"
    and "\<forall>j < k. getDay (addDays d (int j)) \<notin> set ds"
  shows "findNextOnDays ds d = Some (addDays d (int k))"
  using assms
proof (induction k arbitrary: d)
  case 0
  then show ?case by (simp add: findNextOnDays.simps addDays_0)
next
  case (Suc k)
  from Suc.prems(2) have nd: "getDay d \<notin> set ds"
    using addDays_0 [of d] by (metis of_nat_0 zero_less_Suc)
  have shift: "addDays (addDays d 1) (int j) = addDays d (int (Suc j))" for j
    by (simp add: addDays_addDays)
  have "findNextOnDays ds (addDays d 1) = Some (addDays (addDays d 1) (int k))"
  proof (rule Suc.IH)
    show "getDay (addDays (addDays d 1) (int k)) \<in> set ds"
      using Suc.prems(1) by (simp only: shift)
    show "\<forall>j<k. getDay (addDays (addDays d 1) (int j)) \<notin> set ds"
      using Suc.prems(2) by (simp only: shift) auto
  qed
  then show ?case
    using nd by (subst findNextOnDays.simps) (simp add: shift)
qed

lemma findNextOnDays_returns:
  assumes "x \<in> set ds" "0 \<le> x" "x < 7"
  shows "\<exists>k<7. findNextOnDays ds d = Some (addDays d (int k))
            \<and> getDay (addDays d (int k)) \<in> set ds
            \<and> (\<forall>j<k. getDay (addDays d (int j)) \<notin> set ds)"
proof -
  define k0 where "k0 = nat ((x - getDay d) mod 7)"
  have "getDay (addDays d (int k0)) = x"
    using assms by (simp add: k0_def getDay_addDays mod_simps)
  with assms have ex: "getDay (addDays d (int k0)) \<in> set ds" by simp
  define k where "k = (LEAST k. getDay (addDays d (int k)) \<in> set ds)"
  have kin: "getDay (addDays d (int k)) \<in> set ds"
    unfolding k_def using ex by (rule LeastI)
  have kle: "k \<le> k0" unfolding k_def using ex by (rule Least_le)
  have kmin: "\<forall>j<k. getDay (addDays d (int j)) \<notin> set ds"
    unfolding k_def using not_less_Least by blast
  have "k0 < 7" by (simp add: k0_def)
  with kle have "k < 7" by simp
  with findNextOnDays_steps [OF kin kmin] kin kmin show ?thesis by blast
qed

lemma findNextOnDays_least:
  assumes "findNextOnDays ds c = Some r"
  shows "\<exists>k. r = addDays c (int k) \<and> getDay r \<in> set ds
            \<and> (\<forall>j<k. getDay (addDays c (int j)) \<notin> set ds)"
proof -
  from assms have mem: "getDay r \<in> set ds" by (rule findNextOnDays_member)
  from findNextOnDays_returns [OF mem, of c] getDay_range [of r] assms
  show ?thesis by auto
qed

lemma nextOccurrence_nearest:
  assumes "nextOccurrence Weekly iv (Some ds) cur = Some (Next nd)" "ds \<noteq> []"
  shows "nearestAfter ds cur nd"
proof -
  from assms have "findNextOnDays ds (addDays cur 1) = Some nd"
    by (auto simp: nextOccurrence_def)
  from findNextOnDays_least [OF this] obtain k where
    k: "nd = addDays (addDays cur 1) (int k)" "getDay nd \<in> set ds"
       "\<forall>j<k. getDay (addDays (addDays cur 1) (int j)) \<notin> set ds"
    by blast
  have nd: "nd = addDays cur (int k + 1)" using k(1) by (simp add: addDays_addDays add.commute)
  have "getDay (addDays cur j) \<notin> set ds" if "1 \<le> j" "j < int k + 1" for j
  proof -
    from that have "nat (j - 1) < k" by simp
    with k(3) have "getDay (addDays (addDays cur 1) (int (nat (j - 1)))) \<notin> set ds" by blast
    with that show ?thesis by (simp add: addDays_addDays)
  qed
  with nd k(2) show ?thesis
    by (simp add: nearestAfter_def addDays_diff Let_def)
qed

lemma nearestAfter_less:
  assumes "nearestAfter ds cur nxt"
  shows "cur < nxt"
proof -
  from assms obtain k where "1 \<le> k" "nxt = addDays cur k"
    by (auto simp: nearestAfter_def Let_def)
  then show ?thesis by (simp add: addDays_less_self)
qed


lemma nextOccurrence_returns:
  assumes "weekdayFound r"
  shows "nextOccurrence (type r) iv (daysOfWeek r) c \<noteq> None"
proof (cases "type r")
  case Weekly
  show ?thesis
  proof (cases "daysOfWeek r")
    case None
    with Weekly show ?thesis by (simp add: nextOccurrence_def)
  next
    case (Some ds)
    show ?thesis
    proof (cases "ds = []")
      case True
      with Some Weekly show ?thesis by (simp add: nextOccurrence_def)
    next
      case False
      with assms Some Weekly obtain x where "x \<in> set ds" "0 \<le> x" "x < 7"
        by (auto simp: weekdayFound_def)
      from findNextOnDays_returns [OF this, of "addDays c 1"]
      show ?thesis using Some Weekly False by (auto simp: nextOccurrence_def)
    qed
  qed
qed (simp_all add: nextOccurrence_def)

section \<open>The expansion loop\<close>

lemma recurLoop_continue:
  assumes "count < mx" "cur < me" "nextOccurrence ty iv dow cur = Some (Next nd)" "nd \<le> me"
  shows "recurLoop event ty iv dow mx me cur count evs =
         recurLoop event ty iv dow mx me nd (count + 1) (evs @ [recurringEvent event nd])"
  using assms by (subst recurLoop.simps) (simp add: isBefore_def isAfter_def)



lemma recurLoop_stop_after:
  assumes "nextOccurrence ty iv dow cur = Some (Next nd)" "me < nd"
  shows "recurLoop event ty iv dow mx me cur count evs = Some evs"
  using assms by (subst recurLoop.simps) (simp add: isAfter_def)

text \<open>What the loop returns: the events it started with, followed by one generated
  instance for each date of a run, at most \<open>maxOccurrences - count\<close> of them.\<close>

lemma recurLoop_shape:
  "recurLoop event ty iv dow mx me cur count evs = Some res \<Longrightarrow>
   \<exists>ds. res = evs @ map (recurringEvent event) ds \<and> chain ty iv dow me cur ds
        \<and> int (length ds) \<le> max 0 (mx - count)"
proof (induction event ty iv dow mx me cur count evs arbitrary: res rule: recurLoop.induct)
  case (1 event ty iv dow mx me cur count evs)
  show ?case
  proof (cases "count < mx \<and> isBefore cur me")
    case False
    with "1.prems" have "res = evs" by (simp add: recurLoop.simps)
    then show ?thesis by (intro exI [of _ "[]"]) simp
  next
    case guard: True
    show ?thesis
    proof (cases "nextOccurrence ty iv dow cur")
      case None
      with guard "1.prems" show ?thesis by (simp add: recurLoop.simps)
    next
      case (Some st)
      show ?thesis
      proof (cases st)
        case Return
        with Some guard "1.prems" have "res = evs" by (simp add: recurLoop.simps)
        then show ?thesis by (intro exI [of _ "[]"]) simp
      next
        case (Next nd)
        show ?thesis
        proof (cases "isAfter nd me")
          case True
          with Next Some guard "1.prems" have "res = evs" by (simp add: recurLoop.simps)
          then show ?thesis by (intro exI [of _ "[]"]) simp
        next
          case False
          with Next Some guard "1.prems"
          have rec: "recurLoop event ty iv dow mx me nd (count + 1)
                       (evs @ [recurringEvent event nd]) = Some res"
            by (simp add: recurLoop.simps)
          from "1.IH" [OF guard Some Next False rec]
          obtain ds where ds: "res = (evs @ [recurringEvent event nd]) @ map (recurringEvent event) ds"
            "chain ty iv dow me nd ds" "int (length ds) \<le> max 0 (mx - (count + 1))"
            by blast
          show ?thesis
          proof (intro exI [of _ "nd # ds"] conjI)
            show "res = evs @ map (recurringEvent event) (nd # ds)" using ds(1) by simp
            show "chain ty iv dow me cur (nd # ds)"
              using ds(2) Some Next guard False by (simp add: isBefore_def isAfter_def)
            show "int (length (nd # ds)) \<le> max 0 (mx - count)"
              using ds(3) guard by simp
          qed
        qed
      qed
    qed
  qed
qed

text \<open>The loop returns whenever each single step does: \<open>count\<close> grows with every turn.\<close>

lemma recurLoop_returns:
  assumes "\<And>c. nextOccurrence ty iv dow c \<noteq> None"
  shows "recurLoop event ty iv dow mx me cur count evs \<noteq> None"
  using assms
proof (induction event ty iv dow mx me cur count evs rule: recurLoop.induct)
  case (1 event ty iv dow mx me cur count evs)
  show ?case
  proof (cases "count < mx \<and> isBefore cur me")
    case False
    then show ?thesis by (subst recurLoop.simps) (simp only: if_False, simp)
  next
    case guard: True
    from "1.prems" obtain st where Some: "nextOccurrence ty iv dow cur = Some st" by blast
    show ?thesis
    proof (cases st)
      case Return
      with Some guard show ?thesis by (subst recurLoop.simps) simp
    next
      case (Next nd)
      show ?thesis
      proof (cases "isAfter nd me")
        case True
        with Next Some guard show ?thesis by (subst recurLoop.simps) simp
      next
        case False
        from "1.IH" [OF guard Some Next False "1.prems"] Next Some guard False
        show ?thesis by (subst recurLoop.simps) simp
      qed
    qed
  qed
qed

lemma generate_returns:
  assumes "recurrence e = Some r" "weekdayFound r"
  shows "\<exists>res. generateRecurringEvents now e = Some res"
proof (cases "type r = RNone")
  case True
  with assms show ?thesis by (simp add: generateRecurringEvents_def)
next
  case False
  have "recurLoop e (type r) (intervalOf r) (daysOfWeek r) (maxOccurrencesOf r)
          (maxEndDateOf now r) (date e) 1 [e] \<noteq> None"
    by (rule recurLoop_returns) (rule nextOccurrence_returns [OF assms(2)])
  with assms False show ?thesis by (auto simp: generateRecurringEvents_def)
qed

lemma generate_shape:
  assumes "recurrence e = Some r" "generateRecurringEvents now e = Some res"
  shows "\<exists>ds. res = e # map (recurringEvent e) ds
            \<and> chain (type r) (intervalOf r) (daysOfWeek r) (maxEndDateOf now r) (date e) ds
            \<and> int (length ds) \<le> max 0 (maxOccurrencesOf r - 1)"
proof (cases "type r = RNone")
  case True
  with assms have "res = [e]" by (simp add: generateRecurringEvents_def)
  then show ?thesis by (intro exI [of _ "[]"]) simp
next
  case False
  with assms have "recurLoop e (type r) (intervalOf r) (daysOfWeek r) (maxOccurrencesOf r)
          (maxEndDateOf now r) (date e) 1 [e] = Some res"
    by (simp add: generateRecurringEvents_def)
  from recurLoop_shape [OF this] show ?thesis by simp
qed


lemma chain_nearest:
  assumes "chain Weekly iv (Some ds) me cur dts" "ds \<noteq> []" "Suc i < length (cur # dts)"
  shows "nearestAfter ds ((cur # dts) ! i) ((cur # dts) ! Suc i)"
  using assms
proof (induction dts arbitrary: cur i)
  case Nil
  then show ?case by simp
next
  case (Cons d dts)
  show ?case
  proof (cases i)
    case 0
    with Cons.prems nextOccurrence_nearest [of iv ds cur d] show ?thesis by simp
  next
    case (Suc j)
    with Cons.prems Cons.IH [of d j] show ?thesis by simp
  qed
qed

section \<open>Termination and size of an expansion\<close>




section \<open>Dependence on the clock\<close>

text \<open>
  C3 (as amended).  The expansion reads the clock only for the default end date: when the
  seed has no rule, or a rule of type none, or a rule with an end date, two calls at
  different clock readings return the same result.  (Two calls with the same seed at the
  same clock reading return the same result in any case: the model is a function.)
\<close>

theorem expansion_clock_free:
  assumes "\<forall>r. recurrence e = Some r \<longrightarrow> type r = RNone \<or> endDate r \<noteq> None"
  shows "generateRecurringEvents now1 e = generateRecurringEvents now2 e"
  using assms
  by (auto simp: generateRecurringEvents_def maxEndDateOf_def split: option.splits)

theorem expansion_clock_free_witness:
  "generateRecurringEvents 1704067200000
     (sampleEvent ''1'' 1704240000000 ''09:00'' None
        (Some (dailyRule None (Some 1704499200000) None)))
   = generateRecurringEvents 946684800000
     (sampleEvent ''1'' 1704240000000 ''09:00'' None
        (Some (dailyRule None (Some 1704499200000) None)))"
  using expansion_clock_free [of "sampleEvent ''1'' 1704240000000 ''09:00'' None
        (Some (dailyRule None (Some 1704499200000) None))" 1704067200000 946684800000]
  by (simp add: sampleEvent_def dailyRule_def)

text \<open>
  Without an end date the clock matters: a daily rule with two occurrences, expanded on
  2024-01-01 and on 2000-01-01 for a seed dated 2024-01-03.
\<close>

theorem expansion_clock_counterexample:
  "generateRecurringEvents 1704067200000
     (sampleEvent ''1'' 1704240000000 ''09:00'' None (Some (dailyRule None None (Some 2))))
   \<noteq> generateRecurringEvents 946684800000
     (sampleEvent ''1'' 1704240000000 ''09:00'' None (Some (dailyRule None None (Some 2))))"
  by code_simp

section \<open>The count cap\<close>




section \<open>The date cap\<close>



section \<open>Weekly rules with listed weekdays\<close>

lemma findNext_Mon_Fri_from_Thu:
  assumes "getDay c = 4"
  shows "findNextOnDays [1, 5] c = Some (addDays c 1)"
  using findNextOnDays_steps [of c 1 "[1, 5]"] assms
  by (simp add: getDay_addDays addDays_0)

lemma findNext_Mon_Fri_from_Sat:
  assumes "getDay c = 6"
  shows "findNextOnDays [1, 5] c = Some (addDays c 2)"
proof -
  have "\<forall>j<2. getDay (addDays c (int j)) \<notin> set [1, 5]"
  proof (intro allI impI)
    fix j :: nat assume "j < 2"
    then have "j = 0 \<or> j = 1" by auto
    with assms show "getDay (addDays c (int j)) \<notin> set [1, 5]"
      by (auto simp: getDay_addDays addDays_0)
  qed
  with findNextOnDays_steps [of c 2 "[1, 5]"] assms show ?thesis
    by (simp add: getDay_addDays)
qed

text \<open>
  C6 (as amended).  For a seed dated on a Wednesday with a weekly rule on Monday and
  Friday, whatever its interval, the expansion returns; consecutive instances have
  strictly increasing dates, each the nearest calendar day after the one before whose
  weekday is listed; and when the count cap admits three instances and the Monday after
  the seed is not after the effective end date, the first two generated occurrences are
  the following Friday (seed date plus 2 days) and the Monday after it (plus 5 days).
\<close>

theorem weekly_mon_fri_from_wednesday:
  assumes "recurrence e = Some r" "type r = Weekly" "daysOfWeek r = Some [1, 5]"
    and "getDay (date e) = 3"
  shows "\<exists>res. generateRecurringEvents now e = Some res
       \<and> (3 \<le> maxOccurrencesOf r \<and> addDays (date e) 5 \<le> maxEndDateOf now r \<longrightarrow>
            take 3 res = [e, recurringEvent e (addDays (date e) 2),
                          recurringEvent e (addDays (date e) 5)])
       \<and> (\<forall>i. Suc i < length res \<longrightarrow>
            date (res ! i) < date (res ! Suc i)
            \<and> nearestAfter [1, 5] (date (res ! i)) (date (res ! Suc i)))"
proof -
  define d where "d = date e"
  define mx where "mx = maxOccurrencesOf r"
  define me where "me = maxEndDateOf now r"
  define iv where "iv = intervalOf r"
  have wf: "weekdayFound r" using assms(3) by (simp add: weekdayFound_def)
  from generate_returns [OF assms(1) wf] obtain res
    where res: "generateRecurringEvents now e = Some res" by blast
  from generate_shape [OF assms(1) res] assms(2,3) obtain dts where
    dts: "res = e # map (recurringEvent e) dts" "chain Weekly iv (Some [1, 5]) me d dts"
    by (auto simp: iv_def me_def d_def)
  have dates: "map date res = d # dts"
    using dts(1) by (simp add: d_def date_recurringEvent comp_def)
  have pairs: "date (res ! i) < date (res ! Suc i)
             \<and> nearestAfter [1, 5] (date (res ! i)) (date (res ! Suc i))"
    if "Suc i < length res" for i
  proof -
    from that dates have len: "Suc i < length (d # dts)" by (metis length_map)
    from chain_nearest [OF dts(2) _ len]
    have near: "nearestAfter [1, 5] ((d # dts) ! i) ((d # dts) ! Suc i)" by simp
    have "date (res ! i) = (d # dts) ! i" "date (res ! Suc i) = (d # dts) ! Suc i"
      using that dates by (metis Suc_lessD nth_map)+
    with near nearestAfter_less [OF near] show ?thesis by simp
  qed
  have first: "take 3 res = [e, recurringEvent e (addDays d 2), recurringEvent e (addDays d 5)]"
    if cap: "3 \<le> mx" "addDays d 5 \<le> me"
  proof -
    have fri: "nextOccurrence Weekly iv (Some [1, 5]) d = Some (Next (addDays d 2))"
      using findNext_Mon_Fri_from_Thu [of "addDays d 1"] assms(4)
      by (simp add: nextOccurrence_def getDay_addDays d_def addDays_addDays)
    have mon: "nextOccurrence Weekly iv (Some [1, 5]) (addDays d 2) = Some (Next (addDays d 5))"
      using findNext_Mon_Fri_from_Sat [of "addDays d 3"] assms(4)
      by (simp add: nextOccurrence_def getDay_addDays d_def addDays_addDays)
    have lt: "d < me" "addDays d 2 < me" "addDays d 2 \<le> me"
      using cap(2) addDays_less [of d 2 5] addDays_less_self [of d 5] by simp_all
    have "recurLoop e Weekly iv (Some [1, 5]) mx me d 1 [e] =
          recurLoop e Weekly iv (Some [1, 5]) mx me (addDays d 5) 3
            [e, recurringEvent e (addDays d 2), recurringEvent e (addDays d 5)]"
      using cap lt
      by (simp add: recurLoop_continue [OF _ _ fri] recurLoop_continue [OF _ _ mon])
    with res assms(1,2,3) have "recurLoop e Weekly iv (Some [1, 5]) mx me (addDays d 5) 3
            [e, recurringEvent e (addDays d 2), recurringEvent e (addDays d 5)] = Some res"
      by (simp add: generateRecurringEvents_def iv_def mx_def me_def d_def)
    from recurLoop_shape [OF this] show ?thesis by auto
  qed
  from res pairs first show ?thesis
    unfolding d_def mx_def me_def by blast
qed

theorem weekly_mon_fri_from_wednesday_witness:
  "getDay 1704240000000 = 3
   \<and> map_option (map date \<circ> take 3) (generateRecurringEvents 1704067200000
         (sampleEvent ''1'' 1704240000000 ''09:00'' None (Some (weeklyRule [1, 5] None None))))
       = Some [1704240000000, 1704412800000, 1704672000000]"
proof -
  have day: "getDay 1704240000000 = 3"
    by (simp add: getDay_def dayNumber_def MS_PER_DAY_def)
  have cap: "3 \<le> maxOccurrencesOf (weeklyRule [1, 5] None None)
      \<and> addDays 1704240000000 5 \<le> maxEndDateOf 1704067200000 (weeklyRule [1, 5] None None)"
    by code_simp
  from weekly_mon_fri_from_wednesday [of
      "sampleEvent ''1'' 1704240000000 ''09:00'' None (Some (weeklyRule [1, 5] None None))"
      "weeklyRule [1, 5] None None" 1704067200000] day cap
  show ?thesis
    by (auto simp: sampleEvent_def weeklyRule_def date_recurringEvent addDays_def MS_PER_DAY_def)
qed

text \<open>
  The caps can leave no room for them: a Wednesday seed dated 2026-02-18, expanded on
  2024-01-01 under a rule without end date, yields the seed alone.
\<close>

theorem weekly_mon_fri_from_wednesday_counterexample:
  "getDay 1771372800000 = 3
   \<and> generateRecurringEvents 1704067200000
         (sampleEvent ''1'' 1771372800000 ''09:00'' None (Some (weeklyRule [1, 5] None None)))
       = Some [sampleEvent ''1'' 1771372800000 ''09:00'' None (Some (weeklyRule [1, 5] None None))]"
  by code_simp

section \<open>The calendar\<close>

text \<open>The stages of \<open>civilFromDays\<close>: century, four-year cycle, year and day of the year.\<close>

lemma civil_stages:
  fixes z :: int
  assumes doe_def: "doe = (z + 719468) mod 146097"
    and c_def: "c = min 3 (doe div 36524)"
    and doc_def: "doc = doe - 36524 * c"
    and q_def: "q = doc div 1461"
    and doq_def: "doq = doc mod 1461"
    and yq_def: "yq = min 3 (doq div 365)"
    and doy_def: "doy = doq - 365 * yq"
  shows "0 \<le> c \<and> c \<le> 3 \<and> 0 \<le> q \<and> q \<le> 24 \<and> 0 \<le> yq \<and> yq \<le> 3 \<and> 0 \<le> doy \<and> doy \<le> 365
       \<and> doe = 36524 * c + 1461 * q + 365 * yq + doy"
proof -
  have doe: "0 \<le> doe" "doe < 146097" by (simp_all add: doe_def)
  have c: "0 \<le> c" "c \<le> 3" using doe by (simp_all add: c_def)
  have doc: "0 \<le> doc" "doc \<le> 36524" using doe unfolding doc_def c_def by linarith+
  have q: "0 \<le> q" "q \<le> 24" using doc unfolding q_def by linarith+
  have doq: "0 \<le> doq" "doq \<le> 1460" by (simp_all add: doq_def)
  have yq: "0 \<le> yq" "yq \<le> 3" using doq by (simp_all add: yq_def)
  have doy: "0 \<le> doy" "doy \<le> 365" using doq unfolding doy_def yq_def by linarith+
  have "doc = 1461 * q + doq" by (simp add: q_def doq_def)
  then have "doe = 36524 * c + 1461 * q + 365 * yq + doy" by (simp add: doc_def doy_def)
  with c q yq doy show ?thesis by simp
qed

lemma month_stage:
  fixes doy :: int
  assumes "0 \<le> doy" "doy \<le> 365"
    and mp_def: "mp = (5 * doy + 2) div 153"
    and d_def: "d = doy - (153 * mp + 2) div 5 + 1"
  shows "0 \<le> mp \<and> mp \<le> 11 \<and> 1 \<le> d \<and> d \<le> 31"
proof -
  have mp: "0 \<le> mp" "mp \<le> 11" using assms(1,2) unfolding mp_def by linarith+
  have "153 * mp \<le> 5 * doy + 2" "5 * doy + 2 < 153 * mp + 153"
    unfolding mp_def by linarith+
  then have "1 \<le> d" "d \<le> 31" unfolding d_def by linarith+
  with mp show ?thesis by simp
qed

lemma year_of_era:
  fixes c q yq :: int
  assumes "0 \<le> c" "0 \<le> q" "q \<le> 24" "0 \<le> yq" "yq \<le> 3"
    and yoe_def: "yoe = 100 * c + 4 * q + yq"
  shows "yoe * 365 + yoe div 4 - yoe div 100 = 36524 * c + 1461 * q + 365 * yq"
proof -
  have "yoe div 4 = 25 * c + q" using assms(4,5) unfolding yoe_def by linarith
  moreover have "yoe div 100 = c" using assms(2-5) unfolding yoe_def by linarith
  ultimately show ?thesis by (simp add: yoe_def)
qed

lemma civilFromDays_decompose:
  obtains era c q yq doy mp m where
    "civilFromDays z =
       (if m \<le> 2 then 100 * c + 4 * q + yq + era * 400 + 1 else 100 * c + 4 * q + yq + era * 400,
        m, doy - (153 * mp + 2) div 5 + 1)"
    and "m = (if mp < 10 then mp + 3 else mp - 9)"
    and "mp = (5 * doy + 2) div 153"
    and "0 \<le> c" "c \<le> 3" "0 \<le> q" "q \<le> 24" "0 \<le> yq" "yq \<le> 3" "0 \<le> doy" "doy \<le> 365"
    and "z + 719468 = era * 146097 + (36524 * c + 1461 * q + 365 * yq + doy)"
proof -
  define era where "era = (z + 719468) div 146097"
  define doe where "doe = (z + 719468) mod 146097"
  define c where "c = min 3 (doe div 36524)"
  define doc where "doc = doe - 36524 * c"
  define q where "q = doc div 1461"
  define doq where "doq = doc mod 1461"
  define yq where "yq = min 3 (doq div 365)"
  define doy where "doy = doq - 365 * yq"
  define mp where "mp = (5 * doy + 2) div 153"
  define m where "m = (if mp < 10 then mp + 3 else mp - 9)"
  have cfd: "civilFromDays z =
       (if m \<le> 2 then 100 * c + 4 * q + yq + era * 400 + 1 else 100 * c + 4 * q + yq + era * 400,
        m, doy - (153 * mp + 2) div 5 + 1)"
    unfolding civilFromDays_def Let_def m_def mp_def doy_def yq_def doq_def
      q_def doc_def c_def doe_def era_def ..
  from civil_stages [OF doe_def c_def doc_def q_def doq_def yq_def doy_def]
  have st: "0 \<le> c" "c \<le> 3" "0 \<le> q" "q \<le> 24" "0 \<le> yq" "yq \<le> 3" "0 \<le> doy" "doy \<le> 365"
    "doe = 36524 * c + 1461 * q + 365 * yq + doy"
    by blast+
  have "z + 719468 = era * 146097 + doe" unfolding era_def doe_def by simp
  with st(9) have z: "z + 719468 = era * 146097 + (36524 * c + 1461 * q + 365 * yq + doy)"
    by simp
  from that [OF cfd m_def mp_def st(1-8) z] show thesis .
qed

text \<open>\<open>daysFromCivil\<close> undoes \<open>civilFromDays\<close>, so different days have different dates.\<close>

lemma daysFromCivil_civilFromDays:
  "(case civilFromDays z of (y, m, d) \<Rightarrow> daysFromCivil y m d) = z"
proof -
  obtain era c q yq doy mp m where
    cfd: "civilFromDays z =
       (if m \<le> 2 then 100 * c + 4 * q + yq + era * 400 + 1 else 100 * c + 4 * q + yq + era * 400,
        m, doy - (153 * mp + 2) div 5 + 1)"
    and m: "m = (if mp < 10 then mp + 3 else mp - 9)"
    and mp: "mp = (5 * doy + 2) div 153"
    and st: "0 \<le> c" "c \<le> 3" "0 \<le> q" "q \<le> 24" "0 \<le> yq" "yq \<le> 3" "0 \<le> doy" "doy \<le> 365"
    and z: "z + 719468 = era * 146097 + (36524 * c + 1461 * q + 365 * yq + doy)"
    by (rule civilFromDays_decompose)
  define yoe where "yoe = 100 * c + 4 * q + yq"
  define y where "y = (if m \<le> 2 then yoe + era * 400 + 1 else yoe + era * 400)"
  define d where "d = doy - (153 * mp + 2) div 5 + 1"
  from month_stage [OF st(7,8) mp refl] have mo: "0 \<le> mp" "mp \<le> 11"
    by blast+
  have yoe: "0 \<le> yoe" "yoe < 400" using st(1-6) unfolding yoe_def by linarith+
  have y': "(if m \<le> 2 then y - 1 else y) = yoe + era * 400" by (simp add: y_def)
  have era': "(yoe + era * 400) div 400 = era" using yoe by simp
  have yoe': "(yoe + era * 400) mod 400 = yoe" using yoe by simp
  have mp': "(if m > 2 then m - 3 else m + 9) = mp" using mo by (simp add: m)
  have doy': "(153 * mp + 2) div 5 + d - 1 = doy" by (simp add: d_def)
  have "daysFromCivil y m d = era * 146097 + (yoe * 365 + yoe div 4 - yoe div 100 + doy) - 719468"
    unfolding daysFromCivil_def Let_def y' era' yoe' mp' doy' ..
  also have "yoe * 365 + yoe div 4 - yoe div 100 = 36524 * c + 1461 * q + 365 * yq"
    by (rule year_of_era [OF st(1,3,4,5,6) yoe_def])
  also have "era * 146097 + (36524 * c + 1461 * q + 365 * yq + doy) - 719468 = z"
    using z by simp
  finally have "daysFromCivil y m d = z" .
  moreover have "civilFromDays z = (y, m, d)" unfolding cfd y_def yoe_def d_def ..
  ultimately show ?thesis by simp
qed

lemma civilFromDays_inj: "civilFromDays a = civilFromDays b \<Longrightarrow> a = b"
  by (metis daysFromCivil_civilFromDays)

lemma civilFromDays_ranges:
  assumes "civilFromDays z = (y, m, d)"
  shows "1 \<le> m \<and> m \<le> 12 \<and> 1 \<le> d \<and> d \<le> 31"
proof -
  obtain era c q yq doy mp m' where
    cfd: "civilFromDays z =
       (if m' \<le> 2 then 100 * c + 4 * q + yq + era * 400 + 1 else 100 * c + 4 * q + yq + era * 400,
        m', doy - (153 * mp + 2) div 5 + 1)"
    and m: "m' = (if mp < 10 then mp + 3 else mp - 9)"
    and mp: "mp = (5 * doy + 2) div 153"
    and st: "0 \<le> c" "c \<le> 3" "0 \<le> q" "q \<le> 24" "0 \<le> yq" "yq \<le> 3" "0 \<le> doy" "doy \<le> 365"
    by (rule civilFromDays_decompose)
  from month_stage [OF st(7,8) mp refl] have mo: "0 \<le> mp" "mp \<le> 11"
     "1 \<le> doy - (153 * mp + 2) div 5 + 1" "doy - (153 * mp + 2) div 5 + 1 \<le> 31"
    by blast+
  from assms cfd have "m = m'" "d = doy - (153 * mp + 2) div 5 + 1" by simp_all
  with mo m show ?thesis by (simp split: if_splits)
qed

text \<open>Day \<open>-719162\<close> is 1 January of the year 1.\<close>

lemma civilFromDays_year_pos:
  assumes "civilFromDays z = (y, m, d)" "- 719162 \<le> z"
  shows "1 \<le> y"
proof -
  obtain era c q yq doy mp m' where
    cfd: "civilFromDays z =
       (if m' \<le> 2 then 100 * c + 4 * q + yq + era * 400 + 1 else 100 * c + 4 * q + yq + era * 400,
        m', doy - (153 * mp + 2) div 5 + 1)"
    and m: "m' = (if mp < 10 then mp + 3 else mp - 9)"
    and mp: "mp = (5 * doy + 2) div 153"
    and st: "0 \<le> c" "c \<le> 3" "0 \<le> q" "q \<le> 24" "0 \<le> yq" "yq \<le> 3" "0 \<le> doy" "doy \<le> 365"
    and z: "z + 719468 = era * 146097 + (36524 * c + 1461 * q + 365 * yq + doy)"
    by (rule civilFromDays_decompose)
  have era: "0 \<le> era"
  proof (rule ccontr)
    assume "\<not> 0 \<le> era"
    then have "era * 146097 \<le> - 146097" by simp
    with z st assms(2) show False by linarith
  qed
  have pos: "0 \<le> 100 * c + 4 * q + yq + era * 400" using st era by simp
  show ?thesis
  proof (cases "100 * c + 4 * q + yq + era * 400 = 0")
    case False
    with pos assms(1) cfd show ?thesis by (simp split: if_splits)
  next
    case True
    with st era have zero: "c = 0" "q = 0" "yq = 0" "era = 0" by simp_all
    with z assms(2) have "306 \<le> doy" by simp
    then have "10 \<le> mp" unfolding mp by linarith
    then have "m' \<le> 2" using month_stage [OF st(7,8) mp refl] unfolding m by simp
    with assms(1) cfd zero show ?thesis by simp
  qed
qed

subsection \<open>Months\<close>

lemma div_mod_decomp:
  fixes x k q r :: int
  assumes "0 \<le> r" "r < k" "x = k * q + r"
  shows "x div k = q" and "x mod k = r"
  using assms by (simp_all add: div_pos_pos_trivial)

lemma daysFromCivil_marchDays:
  assumes "1 \<le> m" "m \<le> 12"
  shows "daysFromCivil y m d = marchDays (12 * y + m - 3) + d - 1"
proof (cases "m \<le> 2")
  case True
  have eq: "12 * y + m - 3 = 12 * (y - 1) + (m + 9)" by simp
  have b: "0 \<le> m + 9" "m + 9 < 12" using assms True by simp_all
  from div_mod_decomp [OF b eq] True show ?thesis by (simp add: daysFromCivil_def marchDays_def Let_def)
next
  case False
  have eq: "12 * y + m - 3 = 12 * y + (m - 3)" by simp
  have b: "0 \<le> m - 3" "m - 3 < 12" using assms False by simp_all
  from div_mod_decomp [OF b eq] False show ?thesis by (simp add: daysFromCivil_def marchDays_def Let_def)
qed

lemma div_succ:
  fixes t k :: int
  assumes "0 < k"
  shows "(t + 1) div k = (if (t + 1) mod k = 0 then t div k + 1 else t div k)"
proof -
  define a where "a = t div k"
  define b where "b = t mod k"
  have b: "0 \<le> b" "b < k" using assms by (simp_all add: b_def)
  have t: "t = k * a + b" by (simp add: a_def b_def)
  show ?thesis
  proof (cases "b = k - 1")
    case True
    then have "t + 1 = k * (a + 1)" using t by (simp add: algebra_simps)
    then have "(t + 1) div k = a + 1" "(t + 1) mod k = 0" using assms by simp_all
    then show ?thesis by (simp add: a_def)
  next
    case False
    with b have b1: "0 \<le> b + 1" "b + 1 < k" by simp_all
    have t1: "t + 1 = k * a + (b + 1)" using t by simp
    have "(t + 1) div k = a" "(t + 1) mod k = b + 1"
      unfolding t1 using b1 by (simp_all add: div_pos_pos_trivial)
    with b show ?thesis by (simp add: a_def)
  qed
qed

text \<open>A year has at least 365 days, and a month at least 28.\<close>

lemma year_length:
  fixes y :: int
  shows "(y div 400) * 146097 + (y mod 400) * 365 + (y mod 400) div 4 - (y mod 400) div 100 + 365
       \<le> ((y + 1) div 400) * 146097 + ((y + 1) mod 400) * 365 + ((y + 1) mod 400) div 4
           - ((y + 1) mod 400) div 100"
proof -
  define e where "e = y div 400"
  define t where "t = y mod 400"
  have t: "0 \<le> t" "t < 400" by (simp_all add: t_def)
  have y: "y = 400 * e + t" by (simp add: e_def t_def)
  show ?thesis
  proof (cases "t = 399")
    case True
    then have "y + 1 = 400 * (e + 1)" using y by simp
    then have "(y + 1) div 400 = e + 1" "(y + 1) mod 400 = 0" by simp_all
    with True show ?thesis unfolding e_def [symmetric] t_def [symmetric] by simp
  next
    case False
    with t have t1: "0 \<le> t + 1" "t + 1 < 400" by simp_all
    have y1: "y + 1 = 400 * e + (t + 1)" using y by simp
    have ed: "(y + 1) div 400 = e" and tm: "(y + 1) mod 400 = t + 1"
      unfolding y1 using t1 by simp_all
    have "(t + 1) div 100 - t div 100 \<le> (t + 1) div 4 - t div 4"
    proof (cases "(t + 1) mod 100 = 0")
      case True
      have "(t + 1) mod 4 = (t + 1) mod 100 mod 4" by (simp add: mod_mod_cancel)
      with True have "(t + 1) mod 4 = 0" by simp
      with True show ?thesis by (simp add: div_succ)
    next
      case False
      then show ?thesis by (simp add: div_succ)
    qed
    then show ?thesis
      unfolding ed tm e_def [symmetric] t_def [symmetric] by simp
  qed
qed

lemma marchDays_step: "marchDays j + 28 \<le> marchDays (j + 1)"
proof (cases "j mod 12 = 11")
  case True
  have "(j + 1) mod 12 = (j mod 12 + 1) mod 12" by (simp add: mod_simps)
  with True have m: "(j + 1) mod 12 = 0" by simp
  then have d: "(j + 1) div 12 = j div 12 + 1" by (simp add: div_succ)
  from year_length [of "j div 12"] True show ?thesis
    unfolding marchDays_def Let_def d m by simp
next
  case False
  have mp: "0 \<le> j mod 12" "j mod 12 < 11" using False by simp_all
  have "(j + 1) mod 12 = (j mod 12 + 1) mod 12" by (simp add: mod_simps)
  also have "\<dots> = j mod 12 + 1" using mp by (intro mod_pos_pos_trivial) simp_all
  finally have m: "(j + 1) mod 12 = j mod 12 + 1" .
  then have d: "(j + 1) div 12 = j div 12" using mp by (simp add: div_succ)
  define a where "a = 153 * (j mod 12) + 2"
  have "a div 5 + 30 \<le> (a + 153) div 5" by linarith
  moreover have "153 * (j mod 12 + 1) + 2 = a + 153" by (simp add: a_def)
  ultimately have "(153 * (j mod 12) + 2) div 5 + 28 \<le> (153 * (j mod 12 + 1) + 2) div 5"
    unfolding a_def [symmetric] by simp
  then show ?thesis unfolding marchDays_def Let_def d m by simp
qed

lemma marchDays_steps: "marchDays j + 28 * int n \<le> marchDays (j + int n)"
proof (induction n)
  case 0
  then show ?case by simp
next
  case (Suc n)
  have eq: "j + int (Suc n) = j + int n + 1" by simp
  from marchDays_step [of "j + int n"] Suc show ?case unfolding eq by simp
qed

lemma dayNumber_compose:
  assumes "0 \<le> r" "r < MS_PER_DAY"
  shows "dayNumber (x * MS_PER_DAY + r) = x"
  using assms by (simp add: dayNumber_def MS_PER_DAY_def div_pos_pos_trivial)

lemma dayNumber_addDays: "dayNumber (addDays d k) = dayNumber d + k"
  by (simp add: dayNumber_def addDays_def MS_PER_DAY_def)

text \<open>Adding a positive number of months leads to a later calendar day.\<close>

lemma dayNumber_addMonths:
  assumes "1 \<le> n"
  shows "dayNumber d < dayNumber (addMonths d n)"
proof -
  obtain y m dd where c: "civilFromDays (dayNumber d) = (y, m, dd)"
    by (cases "civilFromDays (dayNumber d)") auto
  from civilFromDays_ranges [OF c] have r: "1 \<le> m" "m \<le> 12" "1 \<le> dd" "dd \<le> 31" by simp_all
  define idx where "idx = y * 12 + (m - 1) + n"
  define j0 where "j0 = 12 * y + m - 3"
  have i1: "1 \<le> idx mod 12 + 1" "idx mod 12 + 1 \<le> 12"
    and i2: "1 \<le> (idx + 1) mod 12 + 1" "(idx + 1) mod 12 + 1 \<le> 12" by simp_all
  have e1: "12 * (idx div 12) + (idx mod 12 + 1) - 3 = j0 + n"
    by (simp add: idx_def j0_def)
  have e2: "12 * ((idx + 1) div 12) + ((idx + 1) mod 12 + 1) - 3 = j0 + n + 1"
    by (simp add: idx_def j0_def)
  have f1: "daysFromCivil (idx div 12) (idx mod 12 + 1) 1 = marchDays (j0 + n)"
    using daysFromCivil_marchDays [OF i1, of "idx div 12" 1] unfolding e1 by simp
  have f2: "daysFromCivil ((idx + 1) div 12) ((idx + 1) mod 12 + 1) 1 = marchDays (j0 + n + 1)"
    using daysFromCivil_marchDays [OF i2, of "(idx + 1) div 12" 1] unfolding e2 by simp
  have z: "dayNumber d = marchDays j0 + dd - 1"
    using daysFromCivil_civilFromDays [of "dayNumber d"] daysFromCivil_marchDays [OF r(1,2), of y dd]
    by (simp add: c j0_def)
  define day where "day = marchDays (j0 + n)
      + (if dd \<ge> marchDays (j0 + n + 1) - marchDays (j0 + n)
         then marchDays (j0 + n + 1) - marchDays (j0 + n) else dd) - 1"
  have am: "addMonths d n = day * MS_PER_DAY + d mod MS_PER_DAY"
    unfolding addMonths_def Let_def getFullYear_def monthOf_def getDate_def c fst_conv snd_conv
      idx_def [symmetric] f1 f2 day_def ..
  have "dayNumber (addMonths d n) = day"
    unfolding am by (rule dayNumber_compose) (simp_all add: MS_PER_DAY_def)
  moreover have "marchDays j0 + dd - 1 < day"
  proof -
    from marchDays_steps [of j0 "nat n"] assms
    have a: "marchDays j0 + 28 * n \<le> marchDays (j0 + n)" by simp
    from marchDays_step [of "j0 + n"]
    have b: "marchDays (j0 + n) + 28 \<le> marchDays (j0 + n + 1)" by simp
    from a b assms r show ?thesis unfolding day_def by (simp split: if_splits)
  qed
  ultimately show ?thesis using z by simp
qed

section \<open>Decimal numerals\<close>

lemma digitVal_digitChar: "0 \<le> k \<Longrightarrow> k < 10 \<Longrightarrow> digitVal (digitChar k) = k"
  by (simp add: digitVal_def digitChar_def)

lemma isDigit_digitChar: "0 \<le> k \<Longrightarrow> k < 10 \<Longrightarrow> isDigit (digitChar k)"
  by (simp add: isDigit_def digitChar_def)

lemma isDigit_zero: "isDigit CHR ''0''"
  by (simp add: isDigit_def)

lemma not_isDigit_dash: "\<not> isDigit CHR ''-''"
  by (simp add: isDigit_def)

lemma not_digit_sign: "isDigit c \<Longrightarrow> c \<noteq> CHR ''+'' \<and> c \<noteq> CHR ''-''"
  by (auto simp: isDigit_def)

lemma readDigits_snoc: "readDigits (s @ [c]) = readDigits s * 10 + digitVal c"
  by (simp add: readDigits_def)

lemma readDigits_showDigits: "0 \<le> n \<Longrightarrow> readDigits (showDigits n) = n"
proof (induction n rule: showDigits.induct)
  case (1 n)
  show ?case
  proof (cases "n < 10")
    case True
    with "1.prems" show ?thesis
      by (subst showDigits.simps) (simp add: readDigits_def digitVal_digitChar)
  next
    case False
    with "1.prems" "1.IH" have "readDigits (showDigits (n div 10)) = n div 10" by simp
    with False show ?thesis
      by (subst showDigits.simps) (simp add: readDigits_snoc digitVal_digitChar)
  qed
qed

lemma all_digits_showDigits: "0 \<le> n \<Longrightarrow> list_all isDigit (showDigits n)"
proof (induction n rule: showDigits.induct)
  case (1 n)
  show ?case
  proof (cases "n < 10")
    case True
    with "1.prems" show ?thesis
      by (subst showDigits.simps) (simp add: isDigit_digitChar)
  next
    case False
    with "1.prems" "1.IH" have "list_all isDigit (showDigits (n div 10))" by simp
    with False show ?thesis
      by (subst showDigits.simps) (simp add: isDigit_digitChar)
  qed
qed

lemma readDigits_zeros: "readDigits (replicate k CHR ''0'' @ s) = readDigits s"
proof -
  have "foldl (\<lambda>acc c. acc * 10 + digitVal c) 0 (replicate k CHR ''0'') = 0"
    by (induction k) (simp_all add: digitVal_def)
  then show ?thesis by (simp add: readDigits_def)
qed

lemma readDigits_padStart:
  "0 \<le> n \<Longrightarrow> readDigits (padStart (showDigits n) len CHR ''0'') = n"
  by (simp add: padStart_def readDigits_zeros readDigits_showDigits)

lemma readDigits_addLeadingZeros:
  "0 \<le> n \<Longrightarrow> readDigits (addLeadingZeros n len) = n"
  by (simp add: addLeadingZeros_def readDigits_padStart)

lemma length_showDigits_1: "n < 10 \<Longrightarrow> length (showDigits n) = 1"
  by (subst showDigits.simps) simp

lemma length_showDigits_2: "n < 100 \<Longrightarrow> length (showDigits n) \<le> 2"
  by (subst showDigits.simps) (simp add: length_showDigits_1)

lemma length_showDigits_3: "n < 1000 \<Longrightarrow> length (showDigits n) \<le> 3"
proof (cases "n < 10")
  case True
  then show ?thesis by (simp add: length_showDigits_1)
next
  case False
  assume "n < 1000"
  then have "n div 10 < 100" by simp
  from length_showDigits_2 [OF this] False show ?thesis
    by (subst showDigits.simps) simp
qed

lemma length_showDigits_4: "n < 10000 \<Longrightarrow> length (showDigits n) \<le> 4"
proof (cases "n < 10")
  case True
  then show ?thesis by (simp add: length_showDigits_1)
next
  case False
  assume "n < 10000"
  then have "n div 10 < 1000" by simp
  from length_showDigits_3 [OF this] False show ?thesis
    by (subst showDigits.simps) simp
qed

lemma length_padStart: "length s \<le> len \<Longrightarrow> length (padStart s len c) = len"
  by (simp add: padStart_def)

lemma length_pad2: "0 \<le> n \<Longrightarrow> n < 100 \<Longrightarrow> length (addLeadingZeros n 2) = 2"
  by (simp add: addLeadingZeros_def length_padStart length_showDigits_2)

lemma all_digits_zeroPad: "0 \<le> n \<Longrightarrow> list_all isDigit (zeroPad n k)"
  using all_digits_showDigits [of n]
  by (auto simp: zeroPad_def padStart_def list_all_iff isDigit_zero)

lemma readDigits_zeroPad: "0 \<le> n \<Longrightarrow> readDigits (zeroPad n k) = n"
  by (simp add: zeroPad_def readDigits_padStart)

lemma length_zeroPad_2: "n < 100 \<Longrightarrow> length (zeroPad n 2) = 2"
  by (simp add: zeroPad_def length_padStart length_showDigits_2)

lemma length_zeroPad_3: "n < 1000 \<Longrightarrow> length (zeroPad n 3) = 3"
  by (simp add: zeroPad_def length_padStart length_showDigits_3)

lemma length_zeroPad_4: "n < 10000 \<Longrightarrow> length (zeroPad n 4) = 4"
  by (simp add: zeroPad_def length_padStart length_showDigits_4)

lemma length_zeroPad_ge: "k \<le> length (zeroPad n k)"
  by (simp add: zeroPad_def padStart_def)

text \<open>From year 1 on, \<open>format(date, 'yyyy-MM-dd')\<close> tells calendar days apart.\<close>

lemma formatDate_inj:
  assumes "- 719162 \<le> dayNumber a" "- 719162 \<le> dayNumber b" "formatDate a = formatDate b"
  shows "dayNumber a = dayNumber b"
proof -
  obtain y m d where ca: "civilFromDays (dayNumber a) = (y, m, d)"
    by (cases "civilFromDays (dayNumber a)") auto
  obtain y' m' d' where cb: "civilFromDays (dayNumber b) = (y', m', d')"
    by (cases "civilFromDays (dayNumber b)") auto
  from civilFromDays_ranges [OF ca] civilFromDays_year_pos [OF ca assms(1)]
  have ra: "1 \<le> m" "m \<le> 12" "1 \<le> d" "d \<le> 31" "1 \<le> y" by simp_all
  from civilFromDays_ranges [OF cb] civilFromDays_year_pos [OF cb assms(2)]
  have rb: "1 \<le> m'" "m' \<le> 12" "1 \<le> d'" "d' \<le> 31" "1 \<le> y'" by simp_all
  have fa: "formatDate a = addLeadingZeros y 4 @ ''-'' @ addLeadingZeros m 2 @ ''-'' @ addLeadingZeros d 2"
    using ra(5) by (simp add: formatDate_def getFullYear_def monthOf_def getDate_def ca)
  have fb: "formatDate b = addLeadingZeros y' 4 @ ''-'' @ addLeadingZeros m' 2 @ ''-'' @ addLeadingZeros d' 2"
    using rb(5) by (simp add: formatDate_def getFullYear_def monthOf_def getDate_def cb)
  have la: "length (addLeadingZeros m 2) = 2" "length (addLeadingZeros d 2) = 2"
    using ra by (simp_all add: length_pad2)
  have lb: "length (addLeadingZeros m' 2) = 2" "length (addLeadingZeros d' 2) = 2"
    using rb by (simp_all add: length_pad2)
  from assms(3) have eq: "addLeadingZeros y 4 @ (''-'' @ addLeadingZeros m 2 @ ''-'' @ addLeadingZeros d 2)
      = addLeadingZeros y' 4 @ (''-'' @ addLeadingZeros m' 2 @ ''-'' @ addLeadingZeros d' 2)"
    unfolding fa fb by simp
  have len: "length (''-'' @ addLeadingZeros m 2 @ ''-'' @ addLeadingZeros d 2)
      = length (''-'' @ addLeadingZeros m' 2 @ ''-'' @ addLeadingZeros d' 2)"
    using la lb by simp
  from eq have both: "addLeadingZeros y 4 = addLeadingZeros y' 4
      \<and> ''-'' @ addLeadingZeros m 2 @ ''-'' @ addLeadingZeros d 2
        = ''-'' @ addLeadingZeros m' 2 @ ''-'' @ addLeadingZeros d' 2"
    by (subst (asm) append_eq_append_conv) (use len in blast)+
  then have ys: "addLeadingZeros y 4 = addLeadingZeros y' 4" by blast
  from both have "addLeadingZeros m 2 @ (''-'' @ addLeadingZeros d 2)
        = addLeadingZeros m' 2 @ (''-'' @ addLeadingZeros d' 2)" by simp
  then have both2: "addLeadingZeros m 2 = addLeadingZeros m' 2
      \<and> ''-'' @ addLeadingZeros d 2 = ''-'' @ addLeadingZeros d' 2"
    by (subst (asm) append_eq_append_conv) (use la lb in simp)+
  then have ms: "addLeadingZeros m 2 = addLeadingZeros m' 2"
    and ds: "addLeadingZeros d 2 = addLeadingZeros d' 2" by simp_all
  have inj: "u = v" if "0 \<le> u" "0 \<le> v" "addLeadingZeros u len = addLeadingZeros v len"
    for u v len
  proof -
    have "u = readDigits (addLeadingZeros u len)"
      using that(1) by (simp add: readDigits_addLeadingZeros)
    also have "\<dots> = readDigits (addLeadingZeros v len)" by (simp only: that(3))
    also have "\<dots> = v" using that(2) by (simp add: readDigits_addLeadingZeros)
    finally show ?thesis .
  qed
  have "y = y'" using ra(5) rb(5) ys by (intro inj [of y y' 4]) simp_all
  moreover have "m = m'" using ra(1) rb(1) ms by (intro inj [of m m' 2]) simp_all
  moreover have "d = d'" using ra(3) rb(3) ds by (intro inj [of d d' 2]) simp_all
  ultimately have "civilFromDays (dayNumber a) = civilFromDays (dayNumber b)"
    using ca cb by simp
  then show ?thesis by (rule civilFromDays_inj)
qed

section \<open>Uniqueness of identities\<close>

lemma step_forward:
  assumes "stepsForward r"
    and "nextOccurrence (type r) (intervalOf r) (daysOfWeek r) cur = Some (Next nd)"
  shows "dayNumber cur < dayNumber nd"
proof (cases "type r")
  case RNone
  with assms(2) show ?thesis by (simp add: nextOccurrence_def)
next
  case Daily
  with assms show ?thesis
    by (auto simp: nextOccurrence_def stepsForward_def dayNumber_addDays)
next
  case Custom
  with assms show ?thesis
    by (auto simp: nextOccurrence_def stepsForward_def dayNumber_addDays)
next
  case Monthly
  with assms have "1 \<le> intervalOf r" "nd = addMonths cur (intervalOf r)"
    by (auto simp: nextOccurrence_def stepsForward_def)
  then show ?thesis by (simp add: dayNumber_addMonths)
next
  case Weekly
  show ?thesis
  proof (cases "case daysOfWeek r of None \<Rightarrow> False | Some ds \<Rightarrow> ds \<noteq> []")
    case True
    then obtain ds where ds: "daysOfWeek r = Some ds" "ds \<noteq> []"
      by (auto split: option.splits)
    with assms(2) Weekly have "nearestAfter ds cur nd"
      by (intro nextOccurrence_nearest [of "intervalOf r"]) simp_all
    then obtain k where "1 \<le> k" "nd = addDays cur k"
      by (auto simp: nearestAfter_def Let_def)
    then show ?thesis by (simp add: dayNumber_addDays)
  next
    case False
    with assms Weekly have "1 \<le> intervalOf r" "nd = addWeeks cur (intervalOf r)"
      by (auto simp: nextOccurrence_def stepsForward_def split: option.splits)
    then show ?thesis by (simp add: addWeeks_def dayNumber_addDays)
  qed
qed

lemma chain_forward:
  assumes "stepsForward r"
    and "chain (type r) (intervalOf r) (daysOfWeek r) me cur ds"
  shows "(\<forall>d \<in> set ds. dayNumber cur < dayNumber d) \<and> distinct (map dayNumber ds)"
  using assms(2)
proof (induction ds arbitrary: cur)
  case Nil
  then show ?case by simp
next
  case (Cons d ds)
  from Cons.prems have step: "nextOccurrence (type r) (intervalOf r) (daysOfWeek r) cur = Some (Next d)"
    and rest: "chain (type r) (intervalOf r) (daysOfWeek r) me d ds" by simp_all
  from step_forward [OF assms(1) step] have lt: "dayNumber cur < dayNumber d" .
  from Cons.IH [OF rest] have ih: "\<forall>x \<in> set ds. dayNumber d < dayNumber x"
    "distinct (map dayNumber ds)" by simp_all
  from lt ih show ?case by force
qed

lemma ident_recurringEvent: "ident (recurringEvent e d) = ident e @ ''-'' @ formatDate d"
  by (simp add: recurringEvent_def)

text \<open>Within one run every generated date has its own formatted day, and the identities
  built from them are longer than the seed's.\<close>

lemma run_identities_distinct:
  assumes "forwardRule e" "generateRecurringEvents now e = Some res"
  shows "distinct (map ident res)"
proof (cases "recurrence e")
  case None
  with assms(2) have "res = [e]" by (simp add: generateRecurringEvents_def)
  then show ?thesis by simp
next
  case (Some r)
  show ?thesis
  proof (cases "type r = RNone")
    case True
    with Some assms(2) have "res = [e]" by (simp add: generateRecurringEvents_def)
    then show ?thesis by simp
  next
    case False
    with assms(1) Some have fw: "stepsForward r" and ce: "- 719162 \<le> dayNumber (date e)"
      by (simp_all add: forwardRule_def)
    from generate_shape [OF Some assms(2)] obtain ds where
      res: "res = e # map (recurringEvent e) ds"
      and ch: "chain (type r) (intervalOf r) (daysOfWeek r) (maxEndDateOf now r) (date e) ds"
      by blast
    from chain_forward [OF fw ch]
    have inc: "\<forall>d \<in> set ds. dayNumber (date e) < dayNumber d" and dis: "distinct (map dayNumber ds)"
      by simp_all
    have "inj_on formatDate (set ds)"
    proof (rule inj_onI)
      fix a b assume ab: "a \<in> set ds" "b \<in> set ds" "formatDate a = formatDate b"
      with inc ce have "- 719162 \<le> dayNumber a" "- 719162 \<le> dayNumber b" by force+
      from formatDate_inj [OF this ab(3)] have "dayNumber a = dayNumber b" .
      with dis ab(1,2) show "a = b" by (meson distinct_map inj_onD)
    qed
    moreover have "distinct ds" using dis by (simp add: distinct_map)
    ultimately have "distinct (map formatDate ds)" by (simp add: distinct_map)
    then have "distinct (map (\<lambda>d. ident e @ ''-'' @ formatDate d) ds)"
      by (simp add: distinct_map inj_on_def)
    then show ?thesis by (auto simp: res ident_recurringEvent comp_def)
  qed
qed

subsection \<open>The store\<close>

lemma stem_digits:
  assumes "stem t i"
  shows "takeWhile isDigit i = showDigits t"
proof -
  from assms have t: "0 \<le> t" by (simp add: stem_def)
  then have si: "showInt t = showDigits t" by (simp add: showInt_def)
  from assms have i: "i = showDigits t \<or> (\<exists>s. i = showDigits t @ ''-'' @ s)"
    unfolding stem_def si by simp
  from all_digits_showDigits [OF t] have all: "\<forall>c \<in> set (showDigits t). isDigit c"
    by (simp add: list_all_iff)
  from i show ?thesis
  proof
    assume "i = showDigits t"
    with all show ?thesis by (simp add: takeWhile_eq_all_conv [THEN iffD2])
  next
    assume "\<exists>s. i = showDigits t @ ''-'' @ s"
    then obtain s where "i = showDigits t @ ''-'' @ s" by blast
    with all show ?thesis by (simp add: takeWhile_append2 not_isDigit_dash)
  qed
qed

lemma stem_unique:
  assumes "stem t i" "stem t' i"
  shows "t = t'"
proof -
  from stem_digits [OF assms(1)] stem_digits [OF assms(2)]
  have eq: "showDigits t = showDigits t'" by simp
  from assms have "0 \<le> t" "0 \<le> t'" by (simp_all add: stem_def)
  then have "t = readDigits (showDigits t)" "t' = readDigits (showDigits t')"
    by (simp_all add: readDigits_showDigits)
  with eq show ?thesis by simp
qed

lemma ident_merge: "p_ident p = None \<Longrightarrow> ident (merge e p) = ident e"
  by (simp add: merge_def)

lemma stemmed_update:
  assumes "stemmed T (events s)" "p_ident p = None"
  shows "stemmed T (events (updateEvent i p s))"
proof -
  have "map ident (events (updateEvent i p s)) = map ident (events s)"
    using assms(2) by (simp add: updateEvent_def ident_merge comp_def cong: map_cong)
  moreover have "\<forall>x \<in> set (events (updateEvent i p s)). \<exists>y \<in> set (events s). ident x = ident y"
    using assms(2) by (auto simp: updateEvent_def ident_merge)
  ultimately show ?thesis using assms(1) unfolding stemmed_def by (metis)
qed

lemma stemmed_move:
  assumes "stemmed T (events s)"
  shows "stemmed T (events (moveEvent i d s))"
proof -
  have "map ident (events (moveEvent i d s)) = map ident (events s)"
    by (simp add: moveEvent_def comp_def cong: map_cong)
  moreover have "\<forall>x \<in> set (events (moveEvent i d s)). \<exists>y \<in> set (events s). ident x = ident y"
    by (auto simp: moveEvent_def)
  ultimately show ?thesis using assms unfolding stemmed_def by (metis)
qed

lemma stemmed_delete:
  assumes "stemmed T (events s)"
  shows "stemmed T (events (deleteEvent i s))"
  using assms by (auto simp: stemmed_def deleteEvent_def distinct_map_filter)

lemma stemmed_add:
  assumes "stemmed T (events s)" "0 \<le> now" "now \<notin> T" "forwardRule eventData"
    and "addEvent now eventData s = Some s'"
  shows "stemmed (insert now T) (events s')"
proof -
  define newEvent where "newEvent = eventData\<lparr> ident := showInt now \<rparr>"
  from assms(5) obtain run where run: "generateRecurringEvents now newEvent = Some run"
    and s': "events s' = events s @ run"
    by (auto simp: addEvent_def Let_def newEvent_def split: option.splits)
  have same: "recurrence newEvent = recurrence eventData" "date newEvent = date eventData"
    by (simp_all add: newEvent_def)
  have fw: "forwardRule newEvent" using assms(4) unfolding forwardRule_def same .
  from run_identities_distinct [OF fw run] have dr: "distinct (map ident run)" .
  have st: "stem now (ident x)" if "x \<in> set run" for x
  proof (cases "recurrence newEvent")
    case None
    with run have "run = [newEvent]" by (simp add: generateRecurringEvents_def)
    with that have "x = newEvent" by simp
    with assms(2) show ?thesis by (simp add: stem_def newEvent_def)
  next
    case (Some r)
    from generate_shape [OF Some run] obtain ds where "run = newEvent # map (recurringEvent newEvent) ds"
      by blast
    with that have "x = newEvent \<or> (\<exists>d. x = recurringEvent newEvent d)" by auto
    with assms(2) show ?thesis by (auto simp: stem_def newEvent_def ident_recurringEvent)
  qed
  have disj: "ident x \<noteq> ident y" if "x \<in> set (events s)" "y \<in> set run" for x y
  proof
    assume eq: "ident x = ident y"
    from assms(1) that(1) obtain t where t: "t \<in> T" "stem t (ident x)"
      unfolding stemmed_def by blast
    from st [OF that(2)] eq have "stem now (ident x)" by simp
    from stem_unique [OF this t(2)] t(1) assms(3) show False by simp
  qed
  have "distinct (map ident (events s @ run))"
    using assms(1) dr disj unfolding stemmed_def by (auto simp: distinct_map)
  moreover have "\<forall>x \<in> set (events s @ run). \<exists>t \<in> insert now T. stem t (ident x)"
    using assms(1) st unfolding stemmed_def by auto
  ultimately show ?thesis unfolding stemmed_def s' by simp
qed

lemma stemmed_applyOps:
  assumes "stemmed T (events s)" "list_all admissible ops" "distinct (clockReadings ops)"
    and "set (clockReadings ops) \<inter> T = {}" "applyOps ops s = Some s'"
  shows "\<exists>T'. stemmed T' (events s')"
  using assms
proof (induction ops arbitrary: T s)
  case Nil
  then show ?case by auto
next
  case (Cons x xs)
  from Cons.prems(5) obtain s1 where s1: "applyOp x s = Some s1" "applyOps xs s1 = Some s'"
    by (auto split: option.splits)
  from Cons.prems(2) have adm: "admissible x" "list_all admissible xs" by simp_all
  show ?case
  proof (cases x)
    case (Add now eventData)
    with Cons.prems(3,4) have fresh: "now \<notin> T" "now \<notin> set (clockReadings xs)"
      and dis: "distinct (clockReadings xs)" and dj: "set (clockReadings xs) \<inter> T = {}"
      by auto
    from adm(1) Add have "0 \<le> now" "forwardRule eventData" by simp_all
    from stemmed_add [OF Cons.prems(1) this(1) fresh(1) this(2)] s1(1) Add
    have "stemmed (insert now T) (events s1)" by simp
    moreover have "set (clockReadings xs) \<inter> insert now T = {}" using fresh(2) dj by auto
    ultimately show ?thesis using Cons.IH adm(2) dis s1(2) by blast
  next
    case (Update i p)
    with adm(1) s1(1) Cons.prems(1) have "stemmed T (events s1)"
      by (auto intro: stemmed_update)
    moreover from Update Cons.prems(3,4) have "distinct (clockReadings xs)"
      "set (clockReadings xs) \<inter> T = {}" by simp_all
    ultimately show ?thesis using Cons.IH adm(2) s1(2) by blast
  next
    case (Delete i)
    with s1(1) Cons.prems(1) have "stemmed T (events s1)"
      by (auto intro: stemmed_delete)
    moreover from Delete Cons.prems(3,4) have "distinct (clockReadings xs)"
      "set (clockReadings xs) \<inter> T = {}" by simp_all
    ultimately show ?thesis using Cons.IH adm(2) s1(2) by blast
  next
    case (Move i d)
    with s1(1) Cons.prems(1) have "stemmed T (events s1)"
      by (auto intro: stemmed_move)
    moreover from Move Cons.prems(3,4) have "distinct (clockReadings xs)"
      "set (clockReadings xs) \<inter> T = {}" by simp_all
    ultimately show ?thesis using Cons.IH adm(2) s1(2) by blast
  qed
qed

text \<open>
  C7 (as amended).  Within a single expansion run of a seed with a forward rule
  (\<open>forwardRule\<close>), all identities of the result are pairwise distinct: the generated
  ones, derived from the seed identity and the date of the occurrence, differ from each
  other and from the seed's.  Starting from an empty collection, after any sequence of
  add, update, delete and move operations in which the adds happen at pairwise different,
  non-negative clock readings for events with a forward rule and no update patches the
  identity, all instances of the collection have pairwise distinct identities.
\<close>

theorem identities_unique:
  "(forwardRule e \<and> generateRecurringEvents now e = Some res \<longrightarrow> distinct (map ident res))
   \<and> (events s = [] \<and> list_all admissible ops \<and> distinct (clockReadings ops)
        \<and> applyOps ops s = Some s' \<longrightarrow> distinct (map ident (events s')))"
proof (intro conjI impI)
  assume "forwardRule e \<and> generateRecurringEvents now e = Some res"
  then show "distinct (map ident res)" using run_identities_distinct by blast
next
  assume a: "events s = [] \<and> list_all admissible ops \<and> distinct (clockReadings ops)
        \<and> applyOps ops s = Some s'"
  then have "stemmed {} (events s)" by (simp add: stemmed_def)
  from stemmed_applyOps [OF this, of ops s'] a
  show "distinct (map ident (events s'))" by (auto simp: stemmed_def)
qed

theorem identities_unique_witness:
  "forwardRule (sampleEvent ''7'' 1704240000000 ''09:00'' None
       (Some (weeklyRule [1, 5] None (Some 4))))
   \<and> (\<exists>res. generateRecurringEvents 1704067200000
         (sampleEvent ''7'' 1704240000000 ''09:00'' None
            (Some (weeklyRule [1, 5] None (Some 4)))) = Some res
        \<and> distinct (map ident res))
   \<and> list_all admissible sampleOps \<and> distinct (clockReadings sampleOps)
   \<and> (\<exists>s'. applyOps sampleOps (sampleState []) = Some s' \<and> distinct (map ident (events s')))"
proof -
  have fw: "forwardRule (sampleEvent ''7'' 1704240000000 ''09:00'' None
       (Some (weeklyRule [1, 5] None (Some 4))))"
    by code_simp
  have "generateRecurringEvents 1704067200000
         (sampleEvent ''7'' 1704240000000 ''09:00'' None
            (Some (weeklyRule [1, 5] None (Some 4)))) \<noteq> None"
    by code_simp
  then obtain res where res: "generateRecurringEvents 1704067200000
         (sampleEvent ''7'' 1704240000000 ''09:00'' None
            (Some (weeklyRule [1, 5] None (Some 4)))) = Some res"
    by blast
  have adm: "list_all admissible sampleOps" by code_simp
  have clk: "distinct (clockReadings sampleOps)" by code_simp
  have emp: "events (sampleState []) = []" by (simp add: sampleState_def)
  have "applyOps sampleOps (sampleState []) \<noteq> None" by code_simp
  then obtain s' where s': "applyOps sampleOps (sampleState []) = Some s'" by blast
  from identities_unique [of "sampleEvent ''7'' 1704240000000 ''09:00'' None
       (Some (weeklyRule [1, 5] None (Some 4)))" 1704067200000 res "sampleState []" sampleOps s']
    fw res adm clk emp s'
  show ?thesis by blast
qed

text \<open>
  The store does not keep identities unique by itself: \<open>addEvent\<close> takes the clock reading
  as the new identity, and two adds within the same millisecond create the same one.
\<close>

theorem identities_unique_counterexample:
  "map_option (map ident \<circ> events)
     (applyOps [Add 1700000000000 (sampleEvent [] 1704240000000 ''09:00'' None None),
                Add 1700000000000 (sampleEvent [] 1704326400000 ''14:00'' None None)]
        (sampleState []))
   = Some [''1700000000000'', ''1700000000000'']"
  by code_simp

section \<open>Saving and reloading\<close>

lemma time_of_day:
  fixes ms :: int
  shows "ms div 3600000 * 3600000 + ms div 60000 mod 60 * 60000 + ms div 1000 mod 60 * 1000
           + ms mod 1000 = ms"
proof -
  have a: "ms = 1000 * (ms div 1000) + ms mod 1000" by simp
  have b: "ms div 1000 = 60 * (ms div 1000 div 60) + ms div 1000 mod 60" by simp
  have c: "ms div 1000 div 60 = ms div 60000" by (simp add: zdiv_zmult2_eq [symmetric])
  have d: "ms div 60000 = 60 * (ms div 60000 div 60) + ms div 60000 mod 60" by simp
  have e: "ms div 60000 div 60 = ms div 3600000" by (simp add: zdiv_zmult2_eq [symmetric])
  from a b c d e show ?thesis by linarith
qed

lemma iso_fields:
  fixes M D h mi sec f :: string
  assumes "length M = 2" "length D = 2" "length h = 2" "length mi = 2" "length sec = 2"
    and "length f = 3"
  defines "r \<equiv> ''-'' @ M @ ''-'' @ D @ ''T'' @ h @ '':'' @ mi @ '':'' @ sec @ ''.'' @ f @ ''Z''"
  shows "length r = 20" and "take 2 (drop 1 r) = M" and "take 2 (drop 4 r) = D"
    and "take 2 (drop 7 r) = h" and "take 2 (drop 10 r) = mi" and "take 2 (drop 13 r) = sec"
    and "take 3 (drop 16 r) = f"
    and "r ! 0 = CHR ''-''" and "r ! 3 = CHR ''-''" and "r ! 6 = CHR ''T''" and "r ! 9 = CHR '':''"
    and "r ! 12 = CHR '':''" and "r ! 15 = CHR ''.''" and "r ! 19 = CHR ''Z''"
proof -
  obtain m1 m2 where M: "M = [m1, m2]"
    using assms(1) by (auto simp: length_Suc_conv numeral_2_eq_2)
  obtain d1 d2 where D: "D = [d1, d2]"
    using assms(2) by (auto simp: length_Suc_conv numeral_2_eq_2)
  obtain h1 h2 where h: "h = [h1, h2]"
    using assms(3) by (auto simp: length_Suc_conv numeral_2_eq_2)
  obtain i1 i2 where mi: "mi = [i1, i2]"
    using assms(4) by (auto simp: length_Suc_conv numeral_2_eq_2)
  obtain s1 s2 where sec: "sec = [s1, s2]"
    using assms(5) by (auto simp: length_Suc_conv numeral_2_eq_2)
  obtain f1 f2 f3 where f: "f = [f1, f2, f3]"
    using assms(6) by (auto simp: length_Suc_conv numeral_3_eq_3)
  have r: "r = [CHR ''-'', m1, m2, CHR ''-'', d1, d2, CHR ''T'', h1, h2, CHR '':'', i1, i2,
                CHR '':'', s1, s2, CHR ''.'', f1, f2, f3, CHR ''Z'']"
    by (simp add: r_def M D h mi sec f)
  show "length r = 20" and "take 2 (drop 1 r) = M" and "take 2 (drop 4 r) = D"
    and "take 2 (drop 7 r) = h" and "take 2 (drop 10 r) = mi" and "take 2 (drop 13 r) = sec"
    and "take 3 (drop 16 r) = f"
    and "r ! 0 = CHR ''-''" and "r ! 3 = CHR ''-''" and "r ! 6 = CHR ''T''" and "r ! 9 = CHR '':''"
    and "r ! 12 = CHR '':''" and "r ! 15 = CHR ''.''" and "r ! 19 = CHR ''Z''"
    unfolding r M D h mi sec f by simp_all
qed

lemma year_part:
  fixes y :: int
  defines "Y \<equiv> (if 0 \<le> y \<and> y \<le> 9999 then zeroPad y 4
                  else (if y < 0 then ''-'' else ''+'') @ zeroPad \<bar>y\<bar> 6)"
  shows "yearShape Y \<and> readYear Y = y \<and> 4 \<le> length Y"
proof (cases "0 \<le> y \<and> y \<le> 9999")
  case True
  then have Y: "Y = zeroPad y 4" by (simp add: Y_def)
  from True have len: "length Y = 4" unfolding Y by (intro length_zeroPad_4) simp
  from True have dig: "list_all isDigit Y" unfolding Y by (intro all_digits_zeroPad) simp
  from True have val: "readDigits Y = y" unfolding Y by (intro readDigits_zeroPad) simp
  from len obtain c cs where cs: "Y = c # cs" by (cases Y) auto
  with dig have "isDigit c" by simp
  from not_digit_sign [OF this] have c: "c \<noteq> CHR ''+''" "c \<noteq> CHR ''-''" by simp_all
  have "yearShape Y" using c len dig unfolding yearShape_def cs by simp
  moreover have "readYear Y = y" using c val unfolding readYear_def cs by simp
  ultimately show ?thesis using len by simp
next
  case False
  show ?thesis
  proof (cases "y < 0")
    case True
    then have Y: "Y = CHR ''-'' # zeroPad \<bar>y\<bar> 6" using False by (simp add: Y_def)
    have "list_all isDigit (zeroPad \<bar>y\<bar> 6)" by (intro all_digits_zeroPad) simp
    moreover have "readDigits (zeroPad \<bar>y\<bar> 6) = \<bar>y\<bar>" by (intro readDigits_zeroPad) simp
    moreover have "6 \<le> length (zeroPad \<bar>y\<bar> 6)" by (rule length_zeroPad_ge)
    ultimately show ?thesis using True unfolding Y yearShape_def readYear_def by simp
  next
    case pos: False
    then have Y: "Y = CHR ''+'' # zeroPad \<bar>y\<bar> 6" using False by (simp add: Y_def)
    have "list_all isDigit (zeroPad \<bar>y\<bar> 6)" by (intro all_digits_zeroPad) simp
    moreover have "readDigits (zeroPad \<bar>y\<bar> 6) = \<bar>y\<bar>" by (intro readDigits_zeroPad) simp
    moreover have "6 \<le> length (zeroPad \<bar>y\<bar> 6)" by (rule length_zeroPad_ge)
    ultimately show ?thesis using pos unfolding Y yearShape_def readYear_def by simp
  qed
qed

text \<open>Parsing the ISO string of a date gives the date back.\<close>

lemma dateOfString_toISOString: "dateOfString (toISOString d) = Some d"
proof -
  obtain y m dd where c: "civilFromDays (dayNumber d) = (y, m, dd)"
    by (cases "civilFromDays (dayNumber d)") auto
  from civilFromDays_ranges [OF c] have rg: "1 \<le> m" "m \<le> 12" "1 \<le> dd" "dd \<le> 31" by simp_all
  define ms where "ms = d mod MS_PER_DAY"
  have ms: "0 \<le> ms" "ms < 86400000" by (simp_all add: ms_def MS_PER_DAY_def)
  define hh where "hh = ms div 3600000"
  define mi where "mi = ms div 60000 mod 60"
  define sc where "sc = ms div 1000 mod 60"
  define ff where "ff = ms mod 1000"
  have hh: "0 \<le> hh" "hh \<le> 23" using ms unfolding hh_def by linarith+
  have mi: "0 \<le> mi" "mi \<le> 59" by (simp_all add: mi_def)
  have sc: "0 \<le> sc" "sc \<le> 59" by (simp_all add: sc_def)
  have ff: "0 \<le> ff" "ff < 1000" by (simp_all add: ff_def)
  define Y where "Y = (if 0 \<le> y \<and> y \<le> 9999 then zeroPad y 4
                  else (if y < 0 then ''-'' else ''+'') @ zeroPad \<bar>y\<bar> 6)"
  define r where "r = ''-'' @ zeroPad m 2 @ ''-'' @ zeroPad dd 2 @ ''T'' @ zeroPad hh 2 @ '':''
      @ zeroPad mi 2 @ '':'' @ zeroPad sc 2 @ ''.'' @ zeroPad ff 3 @ ''Z''"
  have iso: "toISOString d = Y @ r"
    unfolding toISOString_def Let_def getFullYear_def monthOf_def getDate_def c fst_conv snd_conv
      ms_def [symmetric] hh_def [symmetric] mi_def [symmetric] sc_def [symmetric]
      ff_def [symmetric] Y_def r_def
    by simp
  have len: "length (zeroPad m 2) = 2" "length (zeroPad dd 2) = 2" "length (zeroPad hh 2) = 2"
    "length (zeroPad mi 2) = 2" "length (zeroPad sc 2) = 2" "length (zeroPad ff 3) = 3"
    using rg hh mi sc ff by (simp_all add: length_zeroPad_2 length_zeroPad_3)
  note fld = iso_fields [OF len, folded r_def]
  from year_part [of y] have yp: "yearShape Y" "readYear Y = y" "4 \<le> length Y"
    unfolding Y_def by simp_all
  have split: "take (length (Y @ r) - 20) (Y @ r) = Y" "drop (length (Y @ r) - 20) (Y @ r) = r"
    using fld(1) by simp_all
  have dig: "list_all isDigit (zeroPad m 2)" "list_all isDigit (zeroPad dd 2)"
    "list_all isDigit (zeroPad hh 2)" "list_all isDigit (zeroPad mi 2)"
    "list_all isDigit (zeroPad sc 2)" "list_all isDigit (zeroPad ff 3)"
    using rg hh mi sc ff by (simp_all add: all_digits_zeroPad)
  have val: "readDigits (zeroPad m 2) = m" "readDigits (zeroPad dd 2) = dd"
    "readDigits (zeroPad hh 2) = hh" "readDigits (zeroPad mi 2) = mi"
    "readDigits (zeroPad sc 2) = sc" "readDigits (zeroPad ff 3) = ff"
    using rg hh mi sc ff by (simp_all add: readDigits_zeroPad)
  have ts: "timeShape r"
    unfolding timeShape_def fld using dig by simp
  have "dateOfString (Y @ r) =
      Some (daysFromCivil y m dd * MS_PER_DAY + hh * 3600000 + mi * 60000 + sc * 1000 + ff)"
    unfolding dateOfString_def Let_def split fld val yp(2)
    using yp(1) ts rg hh mi sc by simp
  moreover have "daysFromCivil y m dd = dayNumber d"
    using daysFromCivil_civilFromDays [of "dayNumber d"] by (simp add: c)
  moreover have "hh * 3600000 + mi * 60000 + sc * 1000 + ff = ms"
    unfolding hh_def mi_def sc_def ff_def using time_of_day [of ms] by simp
  moreover have "dayNumber d * MS_PER_DAY + ms = d"
    by (simp add: dayNumber_def ms_def)
  ultimately show ?thesis unfolding iso by simp
qed

lemma toISOString_nonempty: "toISOString d \<noteq> []"
  by (simp add: toISOString_def Let_def)

lemma reviveOptional_store: "reviveOptional (map_option toISOString v) = Some v"
  by (cases v) (simp_all add: reviveOptional_def dateOfString_toISOString toISOString_nonempty)

lemma loadRecurrence_store: "loadRecurrence (storeRecurrence r) = Some r"
  by (simp add: loadRecurrence_def storeRecurrence_def reviveOptional_store)

lemma loadEvent_store: "loadEvent (storeEvent e) = Some e"
proof -
  have "(case map_option storeRecurrence (recurrence e) of
           None \<Rightarrow> Some None
         | Some r \<Rightarrow> map_option Some (loadRecurrence r)) = Some (recurrence e)"
    by (cases "recurrence e") (simp_all add: loadRecurrence_store)
  then show ?thesis
    by (simp add: loadEvent_def storeEvent_def dateOfString_toISOString reviveOptional_store)
qed

text \<open>
  C9.  Saving a collection and loading it again returns the same collection: every
  instance with the same identity, the same field values, and its three date fields
  (\<open>date\<close>, \<open>originalDate\<close>, the rule's \<open>endDate\<close>) rebuilt from their strings to the dates
  they were.
\<close>

theorem load_save_roundtrip: "loadEvents (saveEvents evs) = Some evs"
  by (induction evs) (simp_all add: loadEvents_def saveEvents_def loadEvent_store)

theorem load_save_roundtrip_witness:
  "map s_date (saveEvents
      [sampleEvent ''1700000000000'' 1704274200000 ''09:30'' None
         (Some (dailyRule None (Some 1704499200000) None))])
     = [''2024-01-03T09:30:00.000Z'']
   \<and> loadEvents (saveEvents
      [sampleEvent ''1700000000000'' 1704274200000 ''09:30'' None
         (Some (dailyRule None (Some 1704499200000) None))])
     = Some [sampleEvent ''1700000000000'' 1704274200000 ''09:30'' None
         (Some (dailyRule None (Some 1704499200000) None))]"
proof -
  have "map s_date (saveEvents
      [sampleEvent ''1700000000000'' 1704274200000 ''09:30'' None
         (Some (dailyRule None (Some 1704499200000) None))])
     = [''2024-01-03T09:30:00.000Z'']"
    by code_simp
  with load_save_roundtrip [of "[sampleEvent ''1700000000000'' 1704274200000 ''09:30'' None
         (Some (dailyRule None (Some 1704499200000) None))]"]
  show ?thesis by simp
qed

end
